theory Spec2Isabelle
  imports Main "HOL-Library.AList"
begin

section \<open>Values\<close>

text \<open>
  Wire-format data (what \<open>to_dict\<close> produces and what a wire-format mapping holds) is JSON.
  A Python \<open>dict\<close> is an association list in insertion order.
\<close>

datatype json =
    JNull
  | JBool bool
  | JInt int
  | JStr string
  | JList "json list"
  | JObj "(string \<times> json) list"

text \<open>Python truthiness, as used by \<open>if aggs:\<close> and \<open>if meta:\<close> in \<open>A\<close>.\<close>

fun truthy :: "json \<Rightarrow> bool" where
  "truthy JNull = False"
| "truthy (JBool b) = b"
| "truthy (JInt i) = (i \<noteq> 0)"
| "truthy (JStr s) = (s \<noteq> [])"
| "truthy (JList xs) = (xs \<noteq> [])"
| "truthy (JObj kvs) = (kvs \<noteq> [])"

section \<open>Python values held in parameters\<close>

text \<open>
  An aggregation object lives in a store and is known by its address. A value passed as a
  keyword parameter is plain data, an \<open>Agg\<close> instance or a query object. The query subsystem
  is external; a query object is represented by the wire object it serializes to.
\<close>

type_synonym addr = nat

datatype val =
    Raw json
  | AggV addr
  | QueryV "(string \<times> json) list"

text \<open>
  A parameter value is a single value, a dict of values (some of which may be instances), or
  a list of such dicts (the \<open>sources\<close> of \<open>composite\<close>).
\<close>

datatype pval =
    One val
  | Hash "(string \<times> val) list"
  | MultiHash "(string \<times> val) list list"

record agg_obj =
  name :: string
  params :: "(string \<times> pval) list"
  base :: "addr option"

type_synonym heap = "agg_obj list"

section \<open>Errors\<close>

text \<open>
  \<open>A\<close> raises \<open>ValueError\<close> at four places, told apart by their message; \<open>UpdateSequence\<close> is
  the \<open>ValueError\<close> of \<open>dict.update\<close> for an element that is not a pair. The specification
  calls \<open>FilterPositional\<close> InvalidArgumentError, \<open>ParamsWithDict\<close> and \<open>ParamsWithAgg\<close>
  AmbiguousInputError, \<open>NotOneAggregation\<close> InvalidShapeError, \<open>UnknownDslObject\<close>
  UnknownAggregationKindError and \<open>KeyError\<close> NotFoundError. \<open>TypeError\<close> and
  \<open>AttributeError\<close> stand for every use of a value of the wrong shape. \<open>NoObject\<close> is not a
  Python exception: it is the result of an operation on an address outside the store, which
  no Python program can hold.
\<close>

datatype value_error =
    FilterPositional
  | ParamsWithDict
  | NotOneAggregation
  | ParamsWithAgg
  | UpdateSequence

datatype error =
    ValueError value_error
  | UnknownDslObject
  | KeyError
  | TypeError
  | AttributeError
  | RecursionError
  | NoObject

section \<open>The registry of aggregation classes\<close>

text \<open>
  Every class of \<open>aggs.py\<close> with a wire name, grouped by its base class. A class is identified
  by its wire name.
\<close>

definition bucket_names :: "string list" where
  "bucket_names =
    [''filter'', ''filters'', ''children'', ''parent'', ''date_histogram'',
     ''auto_date_histogram'', ''adjacency_matrix'', ''date_range'', ''geo_distance'',
     ''geohash_grid'', ''geohex_grid'', ''geotile_grid'', ''geo_centroid'', ''global'',
     ''histogram'', ''ip_range'', ''ip_prefix'', ''missing'', ''nested'', ''range'',
     ''rare_terms'', ''reverse_nested'', ''significant_terms'', ''significant_text'',
     ''terms'', ''sampler'', ''diversified_sampler'', ''random_sampler'', ''composite'',
     ''variable_width_histogram'', ''multi_terms'', ''categorize_text'']"

definition metric_names :: "string list" where
  "metric_names =
    [''top_hits'', ''avg'', ''weighted_avg'', ''cardinality'', ''extended_stats'', ''boxplot'',
     ''geo_bounds'', ''geo_line'', ''max'', ''matrix_stats'', ''median_absolute_deviation'',
     ''min'', ''percentiles'', ''percentile_ranks'', ''scripted_metric'', ''stats'', ''sum'',
     ''top_metrics'', ''t_test'', ''value_count'']"

definition pipeline_names :: "string list" where
  "pipeline_names =
    [''avg_bucket'', ''bucket_script'', ''bucket_selector'', ''cumulative_sum'',
     ''cumulative_cardinality'', ''derivative'', ''extended_stats_bucket'', ''inference'',
     ''max_bucket'', ''min_bucket'', ''moving_fn'', ''moving_avg'', ''moving_percentiles'',
     ''normalize'', ''percentiles_bucket'', ''serial_diff'', ''stats_bucket'', ''sum_bucket'',
     ''bucket_sort'']"

datatype category = Bucket | Metric | Pipeline

definition category_of :: "string \<Rightarrow> category option" where
  "category_of n =
    (if n \<in> set bucket_names then Some Bucket
     else if n \<in> set metric_names then Some Metric
     else if n \<in> set pipeline_names then Some Pipeline
     else None)"

text \<open>\<open>isinstance(agg, Bucket)\<close> for an object of the class with wire name \<open>n\<close>.\<close>

definition isinstance_Bucket :: "string \<Rightarrow> bool" where
  "isinstance_Bucket n = (n \<in> set bucket_names)"

text \<open>
  Modelled from the spec: \<open>DslBase.get_dsl_class\<close> (in \<open>utils.py\<close>, not among the sources) is
  the registry lookup of section 4.1: it resolves a wire name to its class and fails with
  UnknownAggregationKindError, with no fallback, when the name is not registered.
\<close>

definition get_dsl_class :: "string \<Rightarrow> error + string" where
  "get_dsl_class n = (case category_of n of None \<Rightarrow> Inl UnknownDslObject | Some c \<Rightarrow> Inr n)"

text \<open>
  The \<open>_param_defs\<close> tables of the classes: \<open>{"type": "agg", "hash": True}\<close> is \<open>AggHash\<close>,
  with \<open>"multi": True\<close> it is \<open>AggMultiHash\<close>; \<open>{"type": "query"}\<close> is \<open>QueryOne\<close>, with
  \<open>"hash": True\<close> it is \<open>QueryHash\<close>. A class that is not a bucket has no typed parameter.
\<close>

datatype ptype = AggHash | AggMultiHash | QueryOne | QueryHash

definition param_defs :: "string \<Rightarrow> (string \<times> ptype) list" where
  "param_defs cls =
    (if cls = ''filter'' then [(''filter'', QueryOne), (''aggs'', AggHash)]
     else if cls = ''filters'' then [(''filters'', QueryHash), (''aggs'', AggHash)]
     else if cls = ''composite'' then [(''sources'', AggMultiHash), (''aggs'', AggHash)]
     else if isinstance_Bucket cls then [(''aggs'', AggHash)]
     else [])"

section \<open>The node factory\<close>

text \<open>The first argument of \<open>A\<close>: \<open>Union[MutableMapping[str, Any], Agg, str]\<close>.\<close>

datatype name_or_agg =
    Mapping "(string \<times> json) list"
  | Instance addr
  | Name string

text \<open>
  \<open>if x: params = params.copy(); params[key] = x\<close>, for \<open>x\<close> popped from the mapping: nothing
  happens when the key was absent or its value is falsy; otherwise \<open>params\<close> must be a dict
  (a list has \<open>copy\<close> but no string index, other data has no \<open>copy\<close>).
\<close>

definition reattach :: "string \<Rightarrow> json option \<Rightarrow> json \<Rightarrow> error + json" where
  "reattach key x p =
    (case x of
       None \<Rightarrow> Inr p
     | Some j \<Rightarrow>
         if \<not> truthy j then Inr p
         else (case p of
                 JObj kv \<Rightarrow> Inr (JObj (AList.update key j kv))
               | JList xs \<Rightarrow> Inl TypeError
               | _ \<Rightarrow> Inl AttributeError))"

text \<open>\<open>**params\<close> for \<open>params\<close> taken from a wire-format mapping.\<close>

definition kwargs :: "(string \<times> json) list \<Rightarrow> (string \<times> pval) list" where
  "kwargs kv = map (\<lambda>(k, j). (k, One (Raw j))) kv"

text \<open>
  \<open>A(v)\<close> applied to a Python value \<open>v\<close>: a dict is a wire-format mapping, an instance is an
  instance, a string is a name. Any other value reaches \<open>get_dsl_class\<close>, which finds no
  class for it (or cannot hash it).
\<close>

fun as_name_or_agg :: "val \<Rightarrow> error + name_or_agg" where
  "as_name_or_agg (Raw (JObj kv)) = Inr (Mapping kv)"
| "as_name_or_agg (AggV a) = Inr (Instance a)"
| "as_name_or_agg (Raw (JStr s)) = Inr (Name s)"
| "as_name_or_agg (Raw (JList xs)) = Inl TypeError"
| "as_name_or_agg (QueryV q) = Inl TypeError"
| "as_name_or_agg (Raw j) = Inl UnknownDslObject"

text \<open>\<open>value.items()\<close>: the items of a dict, and none for a value that is not a dict.\<close>

fun items_of :: "pval \<Rightarrow> (string \<times> val) list option" where
  "items_of (Hash kvs) = Some kvs"
| "items_of (One (Raw (JObj kv))) = Some (map (\<lambda>(k, j). (k, Raw j)) kv)"
| "items_of v = None"

text \<open>\<open>if not isinstance(value, (tuple, list)): value = (value,)\<close>.\<close>

fun dicts_of :: "pval \<Rightarrow> pval list" where
  "dicts_of (MultiHash l) = map Hash l"
| "dicts_of (One (Raw (JList js))) = map (\<lambda>j. One (Raw j)) js"
| "dicts_of v = [v]"

text \<open>
  Modelled from the spec: the shortcut \<open>Q\<close> of the query subsystem (external, section 6): a
  query is an opaque value that serializes to a wire-format object. A query object is taken
  as it is, a dict is the wire object of the query it denotes, a string names a query
  without fields.
\<close>

fun Q :: "val \<Rightarrow> error + val" where
  "Q (QueryV q) = Inr (QueryV q)"
| "Q (Raw (JObj kv)) = Inr (QueryV kv)"
| "Q (Raw (JStr s)) = Inr (QueryV [(s, JObj [])])"
| "Q v = Inl TypeError"

fun Q_hash :: "(string \<times> val) list \<Rightarrow> error + (string \<times> val) list" where
  "Q_hash [] = Inr []"
| "Q_hash ((k, v) # rest) =
    (case Q v of
       Inl e \<Rightarrow> Inl e
     | Inr q \<Rightarrow> (case Q_hash rest of Inl e \<Rightarrow> Inl e | Inr qs \<Rightarrow> Inr ((k, q) # qs)))"

text \<open>
  \<open>Filter.__init__(self, filter=None, **params)\<close>: a \<open>filter\<close> keyword is taken out of the
  keywords and, unless it is \<open>None\<close>, put back (so it comes last).
\<close>

definition Filter_init :: "(string \<times> pval) list \<Rightarrow> (string \<times> pval) list" where
  "Filter_init ps =
    (case map_of ps ''filter'' of
       None \<Rightarrow> ps
     | Some f \<Rightarrow>
         if f = One (Raw JNull) then AList.delete ''filter'' ps
         else AList.update ''filter'' f (AList.delete ''filter'' ps))"

definition class_init :: "string \<Rightarrow> (string \<times> pval) list \<Rightarrow> (string \<times> pval) list" where
  "class_init cls ps = (if cls = ''filter'' then Filter_init ps else ps)"

text \<open>Sizes of the data a call still has to walk through.\<close>

fun vsz :: "val \<Rightarrow> nat" where
  "vsz (Raw j) = size j"
| "vsz v = 0"

definition hsz :: "(string \<times> val) list \<Rightarrow> nat" where
  "hsz kvs = sum_list (map (\<lambda>(k, v). Suc (vsz v)) kvs)"

fun psz :: "pval \<Rightarrow> nat" where
  "psz (One v) = vsz v"
| "psz (Hash kvs) = hsz kvs"
| "psz (MultiHash l) = sum_list (map (\<lambda>kvs. Suc (hsz kvs)) l)"

definition pssz :: "(string \<times> pval) list \<Rightarrow> nat" where
  "pssz ps = sum_list (map (\<lambda>(k, v). Suc (psz v)) ps)"

definition jssz :: "(string \<times> json) list \<Rightarrow> nat" where
  "jssz kv = sum_list (map (\<lambda>(k, j). Suc (Suc (size j))) kv)"

definition dsz :: "pval list \<Rightarrow> nat" where
  "dsz ds = sum_list (map (\<lambda>d. Suc (psz d)) ds)"

fun A_measure ::
  "(name_or_agg \<times> pval option \<times> (string \<times> pval) list \<times> heap) \<Rightarrow> nat" where
  "A_measure (x, f, ps, h) =
     (case x of Mapping m \<Rightarrow> jssz m | _ \<Rightarrow> 0) + pssz ps
       + (case f of None \<Rightarrow> 0 | Some v \<Rightarrow> Suc (psz v))"

text \<open>
  The factory \<open>A\<close> and the constructor it calls, threading the store. The arguments of \<open>A\<close>
  are its parameters as bound by the call (\<open>A_call\<close> below binds them): \<open>fltr\<close> is \<open>None\<close>
  for \<open>filter=None\<close>, and \<open>ps\<close> are the keywords left for \<open>**params\<close>.

  A class is called as \<open>new_agg cls e params\<close>: \<open>cls(_expand__to_dot=False, **params)\<close>, the
  call of the mapping branch, is \<open>new_agg cls (Some False) params\<close>, and \<open>cls(**params)\<close> is
  \<open>new_agg cls None params\<close>. Python refuses the call with \<open>TypeError\<close> when \<open>params\<close> has the
  key \<open>self\<close>, or the key \<open>_expand__to_dot\<close> beside the explicit keyword. \<open>Filter.__init__\<close> and
  \<open>Bucket.__init__\<close> are the only constructors \<open>aggs.py\<close> defines: the first rearranges the
  keywords (\<open>class_init\<close>), the second sets \<open>_base\<close> to the new object after the base
  constructor has run.

  Modelled from the spec: the base constructor \<open>DslBase.__init__\<close> with \<open>DslBase._setattr\<close>
  (in \<open>utils.py\<close>, not among the sources) is \<open>init\<close>: it stores the keywords in order as the
  parameter map, after coercing each parameter that the class's schema marks as an
  aggregation through the node factory (\<open>coerce_aggs\<close>, \<open>coerce_sources\<close>) and each one marked as
  a query through the query subsystem (section 6). The keyword \<open>_expand__to_dot\<close> is a
  parameter of the base constructor's own, to which the specification gives no effect: it
  is taken out of the keywords and not stored.

  An object is allocated when its class has been called to the end: the children a
  constructor builds come before their parent in the store.
\<close>

function
  A :: "name_or_agg \<Rightarrow> pval option \<Rightarrow> (string \<times> pval) list \<Rightarrow> heap \<Rightarrow> error + addr \<times> heap" and
  new_agg :: "string \<Rightarrow> bool option \<Rightarrow> (string \<times> pval) list \<Rightarrow> heap \<Rightarrow> error + addr \<times> heap" and
  init :: "string \<Rightarrow> (string \<times> pval) list \<Rightarrow> (string \<times> pval) list \<Rightarrow> heap
            \<Rightarrow> error + (string \<times> pval) list \<times> heap" and
  coerce_aggs :: "(string \<times> val) list \<Rightarrow> heap \<Rightarrow> error + (string \<times> val) list \<times> heap" and
  coerce_sources :: "pval list \<Rightarrow> heap \<Rightarrow> error + (string \<times> val) list list \<times> heap"
where
  "A x fltr ps h =
    (if fltr \<noteq> None \<and> x \<noteq> Name ''filter'' then Inl (ValueError FilterPositional)
     else
       (case x of
          Mapping m \<Rightarrow>
            if fltr \<noteq> None \<or> ps \<noteq> [] then Inl (ValueError ParamsWithDict)
            else
              (case AList.delete ''meta'' (AList.delete ''aggs'' m) of
                 [(agg_type, p)] \<Rightarrow>
                   (case reattach ''aggs'' (map_of m ''aggs'') p of
                      Inl e \<Rightarrow> Inl e
                    | Inr p1 \<Rightarrow>
                        (case reattach ''meta'' (map_of m ''meta'') p1 of
                           Inl e \<Rightarrow> Inl e
                         | Inr p2 \<Rightarrow>
                             (case get_dsl_class agg_type of
                                Inl e \<Rightarrow> Inl e
                              | Inr cls \<Rightarrow>
                                  (case p2 of
                                     JObj kv \<Rightarrow> new_agg cls (Some False) (kwargs kv) h
                                   | _ \<Rightarrow> Inl TypeError))))
               | _ \<Rightarrow> Inl (ValueError NotOneAggregation))
        | Instance a \<Rightarrow>
            if fltr \<noteq> None \<or> ps \<noteq> [] then Inl (ValueError ParamsWithAgg) else Inr (a, h)
        | Name s \<Rightarrow>
            (case get_dsl_class s of
               Inl e \<Rightarrow> Inl e
             | Inr cls \<Rightarrow>
                 new_agg cls None
                   (case fltr of None \<Rightarrow> ps | Some f \<Rightarrow> AList.update ''filter'' f ps) h)))"
| "new_agg cls e ps h =
    (if ''self'' \<in> fst ` set ps \<or> (e \<noteq> None \<and> ''_expand__to_dot'' \<in> fst ` set ps)
     then Inl TypeError
     else
       (case init cls (AList.delete ''_expand__to_dot'' (class_init cls ps)) [] h of
          Inl e \<Rightarrow> Inl e
        | Inr (ps', h') \<Rightarrow>
            Inr (length h',
                 h' @ [\<lparr>name = cls, params = ps',
                        base = (if isinstance_Bucket cls then Some (length h') else None)\<rparr>])))"
| "init cls [] acc h = Inr (acc, h)"
| "init cls ((pname, pvalue) # rest) acc h =
    (case map_of (param_defs cls) pname of
       None \<Rightarrow> init cls rest (AList.update pname pvalue acc) h
     | Some AggHash \<Rightarrow>
         (case items_of pvalue of
            None \<Rightarrow> Inl AttributeError
          | Some kvs \<Rightarrow>
              (case coerce_aggs kvs h of
                 Inl e \<Rightarrow> Inl e
               | Inr (kvs', h') \<Rightarrow> init cls rest (AList.update pname (Hash kvs') acc) h'))
     | Some AggMultiHash \<Rightarrow>
         (case coerce_sources (dicts_of pvalue) h of
            Inl e \<Rightarrow> Inl e
          | Inr (l, h') \<Rightarrow> init cls rest (AList.update pname (MultiHash l) acc) h')
     | Some QueryOne \<Rightarrow>
         (case pvalue of
            One v \<Rightarrow>
              (case Q v of
                 Inl e \<Rightarrow> Inl e
               | Inr q \<Rightarrow> init cls rest (AList.update pname (One q) acc) h)
          | _ \<Rightarrow> Inl TypeError)
     | Some QueryHash \<Rightarrow>
         (case items_of pvalue of
            None \<Rightarrow> Inl AttributeError
          | Some kvs \<Rightarrow>
              (case Q_hash kvs of
                 Inl e \<Rightarrow> Inl e
               | Inr qs \<Rightarrow> init cls rest (AList.update pname (Hash qs) acc) h)))"
| "coerce_aggs [] h = Inr ([], h)"
| "coerce_aggs ((k, v) # rest) h =
    (case as_name_or_agg v of
       Inl e \<Rightarrow> Inl e
     | Inr x \<Rightarrow>
         (case A x None [] h of
            Inl e \<Rightarrow> Inl e
          | Inr (a, h') \<Rightarrow>
              (case coerce_aggs rest h' of
                 Inl e \<Rightarrow> Inl e
               | Inr (kvs, h'') \<Rightarrow> Inr ((k, AggV a) # kvs, h''))))"
| "coerce_sources [] h = Inr ([], h)"
| "coerce_sources (d # ds) h =
    (case items_of d of
       None \<Rightarrow> Inl AttributeError
     | Some kvs \<Rightarrow>
         (case coerce_aggs kvs h of
            Inl e \<Rightarrow> Inl e
          | Inr (kvs', h') \<Rightarrow>
              (case coerce_sources ds h' of
                 Inl e \<Rightarrow> Inl e
               | Inr (l, h'') \<Rightarrow> Inr (kvs' # l, h''))))"
  by pat_completeness auto

lemma jssz_delete: "jssz (AList.delete k m) \<le> jssz m"
  by (induction m) (auto simp: jssz_def)

lemma jssz_map_of: "map_of m k = Some j \<Longrightarrow> jssz (AList.delete k m) + size j + 2 \<le> jssz m"
  by (induction m) (auto simp: jssz_def split: if_splits intro: le_trans [OF jssz_delete [unfolded jssz_def]])

lemma jssz_update: "jssz (AList.update k j m) \<le> jssz m + size j + 2"
  by (induction m) (auto simp: jssz_def)

lemma size_list_jssz: "size_list (size_prod (\<lambda>x. 0) size) kv = jssz kv"
  by (induction kv) (auto simp: jssz_def)

lemma size_JObj: "size (JObj kv) = Suc (jssz kv)"
  by (simp add: size_list_jssz)

lemma pssz_kwargs: "pssz (kwargs kv) \<le> jssz kv"
  by (induction kv) (auto simp: pssz_def kwargs_def jssz_def)

lemma map_of_delete_other: "k \<noteq> k' \<Longrightarrow> map_of (AList.delete k m) k' = map_of m k'"
  by (induction m) auto

lemma size_reattach:
  assumes r: "reattach key x p = Inr p'"
  shows "size p' \<le> size p + (case x of None \<Rightarrow> 0 | Some j \<Rightarrow> size j + 2)"
proof (cases x)
  case None
  then show ?thesis using r by (simp add: reattach_def)
next
  case (Some j)
  show ?thesis
  proof (cases "truthy j")
    case False
    then show ?thesis using r Some by (simp add: reattach_def)
  next
    case True
    then obtain kv where p: "p = JObj kv" and p': "p' = JObj (AList.update key j kv)"
      using r Some by (auto simp: reattach_def split: json.splits)
    show ?thesis unfolding p p' size_JObj using jssz_update [of key j kv] Some by simp
  qed
qed

lemma pssz_delete: "pssz (AList.delete k ps) \<le> pssz ps"
  by (induction ps) (auto simp: pssz_def)

lemma pssz_map_of: "map_of ps k = Some v \<Longrightarrow> pssz (AList.delete k ps) + psz v + 1 \<le> pssz ps"
  by (induction ps) (auto simp: pssz_def split: if_splits intro: le_trans [OF pssz_delete [unfolded pssz_def]])

lemma pssz_update: "pssz (AList.update k v ps) \<le> pssz ps + psz v + 1"
  by (induction ps) (auto simp: pssz_def)

lemma pssz_class_init: "pssz (class_init cls ps) \<le> pssz ps"
proof (cases "map_of ps ''filter''")
  case None
  then show ?thesis by (simp add: class_init_def Filter_init_def)
next
  case (Some f)
  have "pssz (AList.update ''filter'' f (AList.delete ''filter'' ps))
          \<le> pssz (AList.delete ''filter'' ps) + psz f + 1"
    by (rule pssz_update)
  also have "\<dots> \<le> pssz ps" by (rule pssz_map_of [OF Some])
  finally show ?thesis
    using Some pssz_delete [of "''filter''" ps] by (simp add: class_init_def Filter_init_def)
qed

lemma hsz_items_of: "items_of v = Some kvs \<Longrightarrow> hsz kvs \<le> psz v"
proof (induction v rule: items_of.induct)
  case (2 kv)
  have "hsz (map (\<lambda>(k, j). (k, Raw j)) kv) \<le> jssz kv"
    by (induction kv) (auto simp: hsz_def jssz_def)
  with 2 show ?case by (auto simp: size_list_jssz)
qed auto

lemma dsz_dicts_of: "dsz (dicts_of v) \<le> Suc (psz v)"
proof (induction v rule: dicts_of.induct)
  case (1 l)
  show ?case by (induction l) (auto simp: dsz_def)
next
  case (2 js)
  have "dsz (map (\<lambda>j. One (Raw j)) js) \<le> size_list size js"
    by (induction js) (auto simp: dsz_def)
  then show ?case by simp
qed (auto simp: dsz_def)

lemma vsz_as_name_or_agg: "as_name_or_agg v = Inr (Mapping m) \<Longrightarrow> jssz m < vsz v"
  by (induction v rule: as_name_or_agg.induct) (auto simp: size_list_jssz)

lemma A_Mapping_decreases:
  assumes "AList.delete ''meta'' (AList.delete ''aggs'' m) = [(a, p)]"
    and "reattach ''aggs'' (map_of m ''aggs'') p = Inr p1"
    and "reattach ''meta'' (map_of m ''meta'') p1 = Inr (JObj kv)"
  shows "pssz (kwargs kv) \<le> jssz m"
proof -
  let ?sa = "case map_of m ''aggs'' of None \<Rightarrow> 0 | Some j \<Rightarrow> size j + 2"
  let ?sm = "case map_of m ''meta'' of None \<Rightarrow> 0 | Some j \<Rightarrow> size j + 2"
  have 1: "jssz (AList.delete ''aggs'' m) + ?sa \<le> jssz m"
    using jssz_map_of [of m "''aggs''"] jssz_delete [of "''aggs''" m]
    by (auto split: option.splits)
  have mm: "map_of (AList.delete ''aggs'' m) ''meta'' = map_of m ''meta''"
    by (rule map_of_delete_other) simp
  have 2: "jssz (AList.delete ''meta'' (AList.delete ''aggs'' m)) + ?sm \<le> jssz (AList.delete ''aggs'' m)"
    using jssz_map_of [of "AList.delete ''aggs'' m" "''meta''"]
      jssz_delete [of "''meta''" "AList.delete ''aggs'' m"] mm
    by (auto split: option.splits)
  have 3: "size p + 2 = jssz (AList.delete ''meta'' (AList.delete ''aggs'' m))"
    using assms(1) by (simp add: jssz_def)
  have 4: "size p1 \<le> size p + ?sa" by (rule size_reattach [OF assms(2)])
  have 5: "size (JObj kv) \<le> size p1 + ?sm" by (rule size_reattach [OF assms(3)])
  have "jssz kv \<le> jssz m" using 1 2 3 4 5 by (simp add: size_list_jssz)
  with pssz_kwargs [of kv] show ?thesis by simp
qed

termination A
proof (relation "inv_image (less_than <*lex*> less_than)
    (\<lambda>c. case c of
        Inl (Inl a) \<Rightarrow> (A_measure a, 3::nat)
      | Inl (Inr (cls, e, ps, h)) \<Rightarrow> (pssz ps, 2)
      | Inr (Inl (cls, ps, acc, h)) \<Rightarrow> (pssz ps, 1)
      | Inr (Inr (Inl (kvs, h))) \<Rightarrow> (hsz kvs, 0)
      | Inr (Inr (Inr (ds, h))) \<Rightarrow> (dsz ds, 0))", goal_cases)
  case 1
  then show ?case by (intro wf_inv_image wf_lex_prod wf_less_than)
next
  case 2
  then show ?case by (auto dest: A_Mapping_decreases)
next
  case (3 x fltr ps)
  have "pssz (case fltr of None \<Rightarrow> ps | Some f \<Rightarrow> AList.update ''filter'' f ps)
          \<le> pssz ps + (case fltr of None \<Rightarrow> 0 | Some v \<Rightarrow> Suc (psz v))"
  proof (cases fltr)
    case None
    then show ?thesis by simp
  next
    case (Some f)
    then show ?thesis using pssz_update [of "''filter''" f ps] by simp
  qed
  with 3 show ?case by auto
next
  case (4 cls e ps h)
  then show ?case
    using pssz_class_init [of cls ps]
      pssz_delete [of "''_expand__to_dot''" "class_init cls ps"] by auto
next
  case 5
  then show ?case by (simp add: pssz_def)
next
  case prems: 6
  show ?case using prems by (auto simp: pssz_def dest!: hsz_items_of)
next
  case 7
  then show ?case by (simp add: pssz_def)
next
  case (8 cls pname pvalue)
  then show ?case using dsz_dicts_of [of pvalue] by (auto simp add: pssz_def)
next
  case 9
  then show ?case by (simp add: pssz_def)
next
  case 10
  then show ?case by (simp add: pssz_def)
next
  case 11
  then show ?case by (simp add: pssz_def)
next
  case prems: (12 k v rest h x)
  show ?case using vsz_as_name_or_agg [of v] prems
    by (cases x) (auto simp: hsz_def pssz_def)
next
  case 13
  then show ?case by (simp add: hsz_def)
next
  case prems: 14
  show ?case using prems by (auto simp: dsz_def dest!: hsz_items_of)
next
  case 15
  then show ?case by (simp add: dsz_def)
qed

text \<open>
  A call \<open>A(x, *args, filter=v, **kw)\<close> as Python binds it to the signature
  \<open>A(name_or_agg, filter=None, **params)\<close>: \<open>pos\<close> is the second positional argument when
  there is one, \<open>key\<close> the value of an explicit keyword \<open>filter\<close> when the call has one, and
  \<open>kw\<close> the keywords of \<open>**kw\<close>. A keyword \<open>name_or_agg\<close>, or a keyword \<open>filter\<close> beside a
  second positional argument or beside the explicit keyword, is a \<open>TypeError\<close> ("got multiple
  values"); a keyword \<open>filter\<close> of \<open>**kw\<close> is the parameter \<open>filter\<close> and not one of \<open>params\<close>.
  The value \<open>None\<close> of Python is \<open>One (Raw JNull)\<close>.
\<close>

definition A_call ::
  "name_or_agg \<Rightarrow> val option \<Rightarrow> pval option \<Rightarrow> (string \<times> pval) list \<Rightarrow> heap
    \<Rightarrow> error + addr \<times> heap" where
  "A_call x pos key kw h =
    (if ''name_or_agg'' \<in> fst ` set kw then Inl TypeError
     else if (pos \<noteq> None \<or> key \<noteq> None) \<and> ''filter'' \<in> fst ` set kw then Inl TypeError
     else if pos \<noteq> None \<and> key \<noteq> None then Inl TypeError
     else
       let f = (case pos of
                  Some v \<Rightarrow> Some (One v)
                | None \<Rightarrow> (case key of Some v \<Rightarrow> Some v | None \<Rightarrow> map_of kw ''filter''))
       in A x (if f = Some (One (Raw JNull)) then None else f) (AList.delete ''filter'' kw) h)"

section \<open>The container protocol of buckets (\<open>AggBase\<close>)\<close>

text \<open>\<open>self._params.get("aggs", {})\<close> and \<open>self._params.setdefault("aggs", {})\<close>.\<close>

definition get_aggs :: "(string \<times> pval) list \<Rightarrow> pval" where
  "get_aggs ps = (case map_of ps ''aggs'' of None \<Rightarrow> Hash [] | Some v \<Rightarrow> v)"

definition setdefault_aggs :: "(string \<times> pval) list \<Rightarrow> (string \<times> pval) list" where
  "setdefault_aggs ps = (case map_of ps ''aggs'' of None \<Rightarrow> ps @ [(''aggs'', Hash [])] | Some v \<Rightarrow> ps)"

definition AggBase_contains :: "addr \<Rightarrow> string \<Rightarrow> heap \<Rightarrow> error + bool" where
  "AggBase_contains self key h =
    (if \<not> self < length h then Inl NoObject
     else (case items_of (get_aggs (params (h ! self))) of
             None \<Rightarrow> Inl TypeError
           | Some kvs \<Rightarrow> Inr (key \<in> fst ` set kvs)))"

text \<open>\<open>self._params["aggs"][agg_name] = agg\<close>, on the parameters of \<open>self\<close>.\<close>

definition store_child :: "string \<Rightarrow> addr \<Rightarrow> (string \<times> pval) list \<Rightarrow> (string \<times> pval) list" where
  "store_child agg_name a ps =
    (case items_of (get_aggs ps) of
       None \<Rightarrow> ps
     | Some kvs \<Rightarrow> AList.update ''aggs'' (Hash (AList.update agg_name (AggV a) kvs)) ps)"

text \<open>
  \<open>AggBase.__getitem__\<close>. The result carries the store also when the call raises: the
  \<open>setdefault\<close> has happened by then.
\<close>

definition AggBase_getitem :: "addr \<Rightarrow> string \<Rightarrow> heap \<Rightarrow> (error + val) \<times> heap" where
  "AggBase_getitem self agg_name h =
    (if \<not> self < length h then (Inl NoObject, h)
     else
       let h1 = h[self := (h ! self)\<lparr>params := setdefault_aggs (params (h ! self))\<rparr>] in
       (case items_of (get_aggs (params (h1 ! self))) of
          None \<Rightarrow> (Inl TypeError, h1)
        | Some kvs \<Rightarrow>
            (case map_of kvs agg_name of
               None \<Rightarrow> (Inl KeyError, h1)
             | Some (AggV c) \<Rightarrow>
                 if \<not> c < length h1 then (Inl NoObject, h1)
                 else if isinstance_Bucket (name (h1 ! c)) then
                   (case A_call (Name (name (h1 ! c))) None (Some (One (Raw JNull)))
                           (params (h1 ! c)) h1 of
                      Inl e \<Rightarrow> (Inl e, h1)
                    | Inr (agg, h2) \<Rightarrow>
                        (Inr (AggV agg),
                         h2[self := (h2 ! self)\<lparr>params := store_child agg_name agg (params (h2 ! self))\<rparr>]))
                 else (Inr (AggV c), h1)
             | Some v \<Rightarrow> (Inr v, h1))))"

text \<open>
  \<open>AggBase.__setitem__\<close>: \<open>self.aggs[agg_name] = A(agg)\<close>.

  Modelled from the spec: the attribute read \<open>self.aggs\<close> goes through \<open>DslBase.__getattr__\<close>
  (in \<open>utils.py\<close>, not among the sources); by section 4.2, \<open>set\<close> stores the built node under
  \<open>children[name]\<close>, replacing any prior entry, so the read yields the children map of
  \<open>self\<close>, created empty when absent.
\<close>

definition AggBase_setitem :: "addr \<Rightarrow> string \<Rightarrow> val \<Rightarrow> heap \<Rightarrow> error + heap" where
  "AggBase_setitem self agg_name agg h =
    (if \<not> self < length h then Inl NoObject
     else
       (case as_name_or_agg agg of
          Inl e \<Rightarrow> Inl e
        | Inr x \<Rightarrow>
            (case A x None [] h of
               Inl e \<Rightarrow> Inl e
             | Inr (a, h1) \<Rightarrow>
                 (case items_of (get_aggs (params (h1 ! self))) of
                    None \<Rightarrow> Inl TypeError
                  | Some kvs \<Rightarrow>
                      Inr (h1[self := (h1 ! self)
                            \<lparr>params := store_child agg_name a (setdefault_aggs (params (h1 ! self)))\<rparr>])))))"

text \<open>
  \<open>AggBase._agg\<close>: \<open>agg = self[name] = A(agg_type, *args, **params)\<close>, then the new node for
  a bucket and \<open>self._base\<close> otherwise. The positional \<open>args\<close> are at most the one argument
  \<open>A\<close> takes after the kind.
\<close>

definition AggBase_agg ::
  "addr \<Rightarrow> bool \<Rightarrow> string \<Rightarrow> string \<Rightarrow> val option \<Rightarrow> (string \<times> pval) list \<Rightarrow> heap
    \<Rightarrow> error + addr \<times> heap" where
  "AggBase_agg self is_bucket nm agg_type args ps h =
    (if \<not> self < length h then Inl NoObject
     else
       (case A_call (Name agg_type) args None ps h of
          Inl e \<Rightarrow> Inl e
        | Inr (agg, h1) \<Rightarrow>
            (case AggBase_setitem self nm (AggV agg) h1 of
               Inl e \<Rightarrow> Inl e
             | Inr h2 \<Rightarrow>
                 if is_bucket then Inr (agg, h2)
                 else (case base (h2 ! self) of
                         None \<Rightarrow> Inl AttributeError
                       | Some b \<Rightarrow> Inr (b, h2)))))"

definition metric ::
  "addr \<Rightarrow> string \<Rightarrow> string \<Rightarrow> val option \<Rightarrow> (string \<times> pval) list \<Rightarrow> heap \<Rightarrow> error + addr \<times> heap" where
  "metric self nm agg_type args ps h = AggBase_agg self False nm agg_type args ps h"

definition bucket ::
  "addr \<Rightarrow> string \<Rightarrow> string \<Rightarrow> val option \<Rightarrow> (string \<times> pval) list \<Rightarrow> heap \<Rightarrow> error + addr \<times> heap" where
  "bucket self nm agg_type args ps h = AggBase_agg self True nm agg_type args ps h"

definition pipeline ::
  "addr \<Rightarrow> string \<Rightarrow> string \<Rightarrow> val option \<Rightarrow> (string \<times> pval) list \<Rightarrow> heap \<Rightarrow> error + addr \<times> heap" where
  "pipeline self nm agg_type args ps h = AggBase_agg self False nm agg_type args ps h"

section \<open>Result views\<close>

text \<open>
  The view classes of \<open>response/aggs.py\<close> are not among the sources; \<open>result\<close> only chooses
  among them. The method of a class is the override nearest to it: \<open>AutoDateHistogram\<close>
  inherits the one of \<open>DateHistogram\<close>, a bucket without an override has \<open>AggBase.result\<close>,
  any other class \<open>Agg.result\<close>.
\<close>

datatype view = AggResponse | BucketData | FieldBucketData | TopHitsData

definition result :: "string \<Rightarrow> view" where
  "result cls =
    (if cls \<in> set [''date_histogram'', ''auto_date_histogram'', ''histogram'', ''rare_terms'',
                   ''terms'', ''variable_width_histogram'']
     then FieldBucketData
     else if cls = ''top_hits'' then TopHitsData
     else if isinstance_Bucket cls then BucketData
     else AggResponse)"

section \<open>Serialization\<close>

text \<open>\<open>value in ({}, [])\<close>.\<close>

definition is_empty :: "pval \<Rightarrow> bool" where
  "is_empty v = (v = Hash [] \<or> v = MultiHash [] \<or> v = One (Raw (JObj [])) \<or> v = One (Raw (JList [])))"

text \<open>
  \<open>if isinstance(d[self.name], dict): n = d[self.name]; if key in n: d[key] = n.pop(key)\<close>:
  the step \<open>Agg.to_dict\<close> takes for \<open>meta\<close> and \<open>Bucket.to_dict\<close> for \<open>aggs\<close>.
\<close>

definition hoist :: "string \<Rightarrow> string \<Rightarrow> (string \<times> json) list \<Rightarrow> (string \<times> json) list" where
  "hoist nm key d =
    (case map_of d nm of
       Some (JObj n) \<Rightarrow>
         (case map_of n key of
            None \<Rightarrow> d
          | Some x \<Rightarrow> AList.update key x (AList.update nm (JObj (AList.delete key n)) d))
     | _ \<Rightarrow> d)"

definition Agg_to_dict :: "string \<Rightarrow> (string \<times> json) list \<Rightarrow> (string \<times> json) list" where
  "Agg_to_dict nm d = hoist nm ''meta'' d"

definition Bucket_to_dict :: "string \<Rightarrow> (string \<times> json) list \<Rightarrow> (string \<times> json) list" where
  "Bucket_to_dict nm d = hoist nm ''aggs'' (Agg_to_dict nm d)"

text \<open>
  \<open>n.update(x)\<close>: \<open>dict.update\<close> takes the fields of a dict in their order (an association
  list is read as the dict \<open>map_of\<close> gives: a key counts once), or the pairs an iterable
  yields: the elements of a list, each a sequence of length two (a list, a string of two
  characters, or a dict of two keys, which yields its keys); a string yields its
  characters, none of them a pair. A number, a truth value or \<open>None\<close> is not iterable. The
  key of a pair that is itself a list or a dict is unhashable; \<open>json\<close> has no object with a
  key that is a number, a truth value or \<open>None\<close>, and such a pair is refused likewise.
\<close>

fun pair_of :: "json \<Rightarrow> error + string \<times> json" where
  "pair_of (JList [JStr k, v]) = Inr (k, v)"
| "pair_of (JList [k, v]) = Inl TypeError"
| "pair_of (JList xs) = Inl (ValueError UpdateSequence)"
| "pair_of (JStr [c, d]) = Inr ([c], JStr [d])"
| "pair_of (JStr s) = Inl (ValueError UpdateSequence)"
| "pair_of (JObj [(k1, v1), (k2, v2)]) = Inr (k1, JStr k2)"
| "pair_of (JObj kv) = Inl (ValueError UpdateSequence)"
| "pair_of j = Inl TypeError"

fun pairs_of :: "json list \<Rightarrow> error + (string \<times> json) list" where
  "pairs_of [] = Inr []"
| "pairs_of (x # xs) =
    (case pair_of x of
       Inl e \<Rightarrow> Inl e
     | Inr p \<Rightarrow> (case pairs_of xs of Inl e \<Rightarrow> Inl e | Inr ps \<Rightarrow> Inr (p # ps)))"

fun update_items :: "json \<Rightarrow> error + (string \<times> json) list" where
  "update_items (JObj q) = Inr (AList.clearjunk q)"
| "update_items (JList xs) = pairs_of xs"
| "update_items (JStr s) = (if s = [] then Inr [] else Inl (ValueError UpdateSequence))"
| "update_items j = Inl TypeError"

definition dict_update :: "(string \<times> json) list \<Rightarrow> (string \<times> json) list \<Rightarrow> (string \<times> json) list" where
  "dict_update n items = fold (\<lambda>(k, v). AList.update k v) items n"

text \<open>
  \<open>Filter.to_dict\<close>: after the steps of \<open>Bucket.to_dict\<close>,
  \<open>n.update(n.pop("filter", {}))\<close>.
\<close>

definition Filter_to_dict :: "(string \<times> json) list \<Rightarrow> error + (string \<times> json) list" where
  "Filter_to_dict d0 =
    (let d = Bucket_to_dict ''filter'' d0 in
     case map_of d ''filter'' of
       Some (JObj n) \<Rightarrow>
         (case map_of n ''filter'' of
            None \<Rightarrow> Inr d
          | Some x \<Rightarrow>
              (case update_items x of
                 Inl e \<Rightarrow> Inl e
               | Inr items \<Rightarrow>
                   Inr (AList.update ''filter''
                          (JObj (dict_update (AList.delete ''filter'' n) items)) d)))
     | _ \<Rightarrow> Inr d)"

text \<open>The \<open>to_dict\<close> of the class an object belongs to, applied to the result of the base class.\<close>

definition class_to_dict :: "string \<Rightarrow> (string \<times> json) list \<Rightarrow> error + (string \<times> json) list" where
  "class_to_dict cls d =
    (if cls = ''filter'' then Filter_to_dict d
     else if isinstance_Bucket cls then Inr (Bucket_to_dict cls d)
     else Inr (Agg_to_dict cls d))"

text \<open>
  Serialization follows the references from a node to its children through the store. The
  first argument bounds the depth of the calls, as Python's recursion limit does:
  \<open>to_dict\<close> on a store in which a node is its own descendant ends in \<open>RecursionError\<close>.

  Modelled from the spec: \<open>DslBase.to_dict\<close> (in \<open>utils.py\<close>, not among the sources) is step 1
  of section 4.3, \<open>{kind: serializeParams(params)}\<close>: \<open>serializeParams\<close> keeps the parameters
  in order, applies \<open>serialize\<close> to every node-valued parameter (also inside a dict or a list
  of dicts of nodes), takes a query as its wire object and plain data as it is, and leaves
  out a parameter of the class's schema that is empty (step 2 hoists the children only when
  there are some).
\<close>

fun pval_weight :: "pval \<Rightarrow> nat" where
  "pval_weight (One v) = 4"
| "pval_weight (Hash kvs) = 4 + length kvs"
| "pval_weight (MultiHash l) = 4 + sum_list (map (\<lambda>kvs. 3 + length kvs) l)"

function to_dict :: "nat \<Rightarrow> heap \<Rightarrow> addr \<Rightarrow> error + json"
  and DslBase_to_dict :: "nat \<Rightarrow> heap \<Rightarrow> string \<Rightarrow> (string \<times> pval) list \<Rightarrow> error + (string \<times> json) list"
  and pval_to_dict :: "nat \<Rightarrow> heap \<Rightarrow> pval \<Rightarrow> error + json"
  and hash_to_dict :: "nat \<Rightarrow> heap \<Rightarrow> (string \<times> val) list \<Rightarrow> error + (string \<times> json) list"
  and multi_to_dict :: "nat \<Rightarrow> heap \<Rightarrow> (string \<times> val) list list \<Rightarrow> error + json list"
  and val_to_dict :: "nat \<Rightarrow> heap \<Rightarrow> val \<Rightarrow> error + json"
where
  "to_dict 0 h a = Inl RecursionError"
| "to_dict (Suc n) h a =
    (if \<not> a < length h then Inl NoObject
     else
       (case DslBase_to_dict n h (name (h ! a)) (params (h ! a)) of
          Inl e \<Rightarrow> Inl e
        | Inr d \<Rightarrow>
            (case class_to_dict (name (h ! a)) [(name (h ! a), JObj d)] of
               Inl e \<Rightarrow> Inl e
             | Inr d' \<Rightarrow> Inr (JObj d'))))"
| "DslBase_to_dict n h cls [] = Inr []"
| "DslBase_to_dict n h cls ((pname, v) # rest) =
    (if map_of (param_defs cls) pname \<noteq> None \<and> is_empty v then DslBase_to_dict n h cls rest
     else
       (case pval_to_dict n h v of
          Inl e \<Rightarrow> Inl e
        | Inr j \<Rightarrow>
            (case DslBase_to_dict n h cls rest of
               Inl e \<Rightarrow> Inl e
             | Inr d \<Rightarrow> Inr ((pname, j) # d))))"
| "pval_to_dict n h (One v) = val_to_dict n h v"
| "pval_to_dict n h (Hash kvs) =
    (case hash_to_dict n h kvs of Inl e \<Rightarrow> Inl e | Inr d \<Rightarrow> Inr (JObj d))"
| "pval_to_dict n h (MultiHash l) =
    (case multi_to_dict n h l of Inl e \<Rightarrow> Inl e | Inr js \<Rightarrow> Inr (JList js))"
| "hash_to_dict n h [] = Inr []"
| "hash_to_dict n h ((k, v) # rest) =
    (case val_to_dict n h v of
       Inl e \<Rightarrow> Inl e
     | Inr j \<Rightarrow>
         (case hash_to_dict n h rest of
            Inl e \<Rightarrow> Inl e
          | Inr d \<Rightarrow> Inr ((k, j) # d)))"
| "multi_to_dict n h [] = Inr []"
| "multi_to_dict n h (kvs # rest) =
    (case hash_to_dict n h kvs of
       Inl e \<Rightarrow> Inl e
     | Inr d \<Rightarrow>
         (case multi_to_dict n h rest of
            Inl e \<Rightarrow> Inl e
          | Inr js \<Rightarrow> Inr (JObj d # js)))"
| "val_to_dict n h (Raw j) = Inr j"
| "val_to_dict n h (QueryV q) = Inr (JObj q)"
| "val_to_dict n h (AggV a) = to_dict n h a"
  by pat_completeness auto

termination to_dict
  by (relation "inv_image (less_than <*lex*> less_than)
    (\<lambda>c. case c of
        Inl (Inl (n, h, a)) \<Rightarrow> (n, 0::nat)
      | Inl (Inr (Inl (n, h, cls, ps))) \<Rightarrow> (n, 5 + sum_list (map (\<lambda>(k, v). Suc (pval_weight v)) ps))
      | Inl (Inr (Inr (n, h, v))) \<Rightarrow> (n, pval_weight v)
      | Inr (Inl (n, h, kvs)) \<Rightarrow> (n, 2 + length kvs)
      | Inr (Inr (Inl (n, h, l))) \<Rightarrow> (n, 3 + sum_list (map (\<lambda>kvs. 3 + length kvs) l))
      | Inr (Inr (Inr (n, h, v))) \<Rightarrow> (n, 1))") auto

section \<open>Notions used to state the properties\<close>

text \<open>
  The child a container holds under a name, read without copying it
  (\<open>self._params["aggs"][k]\<close>), and the assignment of one parameter of a node
  (\<open>agg._params[k] = v\<close>), the mutation through a handle.
\<close>

definition child :: "heap \<Rightarrow> addr \<Rightarrow> string \<Rightarrow> val option" where
  "child h self k =
    (case items_of (get_aggs (params (h ! self))) of None \<Rightarrow> None | Some kvs \<Rightarrow> map_of kvs k)"

definition set_param :: "addr \<Rightarrow> string \<Rightarrow> pval \<Rightarrow> heap \<Rightarrow> heap" where
  "set_param a k v h = h[a := (h ! a)\<lparr>params := AList.update k v (params (h ! a))\<rparr>]"

text \<open>
  The siblings of the kind tag in a serialized node, given the serialized parameters: \<open>meta\<close>
  when there is one, then, for a bucket, \<open>aggs\<close> when there is one.
\<close>

definition siblings :: "bool \<Rightarrow> (string \<times> json) list \<Rightarrow> (string \<times> json) list" where
  "siblings b inner =
     (case map_of inner ''meta'' of None \<Rightarrow> [] | Some m \<Rightarrow> [(''meta'', m)]) @
     (if b then (case map_of inner ''aggs'' of None \<Rightarrow> [] | Some x \<Rightarrow> [(''aggs'', x)]) else [])"

text \<open>
  What \<open>if x: params = params.copy(); params[key] = x\<close> leaves of a dict \<open>params\<close>: the value
  popped from the mapping is put back under its key when it is truthy.
\<close>

definition reattached :: "string \<Rightarrow> json option \<Rightarrow> (string \<times> json) list \<Rightarrow> (string \<times> json) list" where
  "reattached key x kv =
    (case x of None \<Rightarrow> kv | Some j \<Rightarrow> if truthy j then AList.update key j kv else kv)"

text \<open>
  The form in which the constructor stores a parameter of the class's schema: a dict of
  nodes, a list of dicts of nodes, a query, a dict of queries. A parameter outside the
  schema is stored as it is given. The parameters of an object are \<open>coerced\<close> when their
  names are distinct, as the keys of a dict are, and each one of the schema has that form.
\<close>

fun is_AggV :: "val \<Rightarrow> bool" where
  "is_AggV (AggV a) = True"
| "is_AggV v = False"

fun is_QueryV :: "val \<Rightarrow> bool" where
  "is_QueryV (QueryV q) = True"
| "is_QueryV v = False"

fun coerced_value :: "ptype \<Rightarrow> pval \<Rightarrow> bool" where
  "coerced_value AggHash (Hash kvs) = list_all (\<lambda>(k, v). is_AggV v) kvs"
| "coerced_value AggMultiHash (MultiHash l) = list_all (list_all (\<lambda>(k, v). is_AggV v)) l"
| "coerced_value QueryOne (One v) = is_QueryV v"
| "coerced_value QueryHash (Hash kvs) = list_all (\<lambda>(k, v). is_QueryV v) kvs"
| "coerced_value t v = False"

definition coerced_param :: "string \<Rightarrow> string \<Rightarrow> pval \<Rightarrow> bool" where
  "coerced_param cls key v =
    (case map_of (param_defs cls) key of None \<Rightarrow> True | Some t \<Rightarrow> coerced_value t v)"

definition coerced :: "string \<Rightarrow> (string \<times> pval) list \<Rightarrow> bool" where
  "coerced cls ps = (distinct (map fst ps) \<and> list_all (\<lambda>(key, v). coerced_param cls key v) ps)"

subsection \<open>Example stores\<close>

text \<open>
  The mapping \<open>{"terms": {"field": "tags"}, "aggs": {"x": {"max": {"field": "y"}}}}\<close> and the
  store \<open>A\<close> builds from it: the \<open>max\<close> child at address 0, the \<open>terms\<close> node at address 1.
\<close>

definition spec_example :: "(string \<times> json) list" where
  "spec_example =
    [(''terms'', JObj [(''field'', JStr ''tags'')]),
     (''aggs'', JObj [(''x'', JObj [(''max'', JObj [(''field'', JStr ''y'')])])])]"

definition spec_example_store :: heap where
  "spec_example_store =
    [\<lparr>name = ''max'', params = [(''field'', One (Raw (JStr ''y'')))], base = None\<rparr>,
     \<lparr>name = ''terms'',
      params = [(''field'', One (Raw (JStr ''tags''))), (''aggs'', Hash [(''x'', AggV 0)])],
      base = Some 1\<rparr>]"


text \<open>
  A \<open>nested\<close> bucket (address 1) holding a \<open>terms\<close> bucket (address 0) under \<open>k\<close>, and the
  store after \<open>AggBase_getitem 1 ''k''\<close>.
\<close>

definition two_level :: heap where
  "two_level =
    [\<lparr>name = ''terms'', params = [(''field'', One (Raw (JStr ''tags'')))], base = Some 0\<rparr>,
     \<lparr>name = ''nested'',
      params = [(''path'', One (Raw (JStr ''p''))), (''aggs'', Hash [(''k'', AggV 0)])],
      base = Some 1\<rparr>]"

definition two_level_read :: heap where
  "two_level_read =
    [\<lparr>name = ''terms'', params = [(''field'', One (Raw (JStr ''tags'')))], base = Some 0\<rparr>,
     \<lparr>name = ''nested'',
      params = [(''path'', One (Raw (JStr ''p''))), (''aggs'', Hash [(''k'', AggV 2)])],
      base = Some 1\<rparr>,
     \<lparr>name = ''terms'', params = [(''field'', One (Raw (JStr ''tags'')))], base = Some 2\<rparr>]"

text \<open>The store after the returned node got \<open>size = 5\<close> and the child was read again.\<close>

definition two_level_reread :: heap where
  "two_level_reread =
    [\<lparr>name = ''terms'', params = [(''field'', One (Raw (JStr ''tags'')))], base = Some 0\<rparr>,
     \<lparr>name = ''nested'',
      params = [(''path'', One (Raw (JStr ''p''))), (''aggs'', Hash [(''k'', AggV 3)])],
      base = Some 1\<rparr>,
     \<lparr>name = ''terms'',
      params = [(''field'', One (Raw (JStr ''tags''))), (''size'', One (Raw (JInt 5)))],
      base = Some 2\<rparr>,
     \<lparr>name = ''terms'',
      params = [(''field'', One (Raw (JStr ''tags''))), (''size'', One (Raw (JInt 5)))],
      base = Some 3\<rparr>]"

text \<open>
  The store after \<open>bucket 0 ''f'' ''filter''\<close> with the query \<open>{"term": {"f": 42}}\<close> as
  positional argument, on the lone \<open>terms\<close> bucket \<open>root_store\<close> below: the \<open>filter\<close> bucket
  (address 1) is the child \<open>f\<close> of the \<open>terms\<close> bucket.
\<close>

definition filter_child :: heap where
  "filter_child =
    [\<lparr>name = ''terms'',
      params = [(''field'', One (Raw (JStr ''tags''))), (''aggs'', Hash [(''f'', AggV 1)])],
      base = Some 0\<rparr>,
     \<lparr>name = ''filter'',
      params = [(''filter'', One (QueryV [(''term'', JObj [(''f'', JInt 42)])]))],
      base = Some 1\<rparr>]"

text \<open>
  The mapping \<open>{"max": {"field": "y"}, "aggs": {"x": {"min": {"field": "z"}}}}\<close> and the
  store \<open>A\<close> builds from it: \<open>max\<close> is not a bucket, and its \<open>aggs\<close> is stored as given.
\<close>

definition max_with_aggs :: "(string \<times> json) list" where
  "max_with_aggs =
    [(''max'', JObj [(''field'', JStr ''y'')]),
     (''aggs'', JObj [(''x'', JObj [(''min'', JObj [(''field'', JStr ''z'')])])])]"

definition max_with_aggs_store :: heap where
  "max_with_aggs_store =
    [\<lparr>name = ''max'',
      params = [(''field'', One (Raw (JStr ''y''))),
                (''aggs'', One (Raw (JObj [(''x'', JObj [(''min'', JObj [(''field'', JStr ''z'')])])])))],
      base = None\<rparr>]"

text \<open>
  A lone \<open>terms\<close> bucket (address 0); the store after \<open>bucket 0 ''a'' ''date_histogram''\<close>; and
  the stores after \<open>metric 1 ''m'' ''max''\<close> and after \<open>pipeline 1 ''d'' ''derivative''\<close> on that.
\<close>

definition root_store :: heap where
  "root_store =
    [\<lparr>name = ''terms'', params = [(''field'', One (Raw (JStr ''tags'')))], base = Some 0\<rparr>]"

definition chained_bucket :: heap where
  "chained_bucket =
    [\<lparr>name = ''terms'',
      params = [(''field'', One (Raw (JStr ''tags''))), (''aggs'', Hash [(''a'', AggV 1)])],
      base = Some 0\<rparr>,
     \<lparr>name = ''date_histogram'', params = [], base = Some 1\<rparr>]"

definition chained_metric :: heap where
  "chained_metric =
    [\<lparr>name = ''terms'',
      params = [(''field'', One (Raw (JStr ''tags''))), (''aggs'', Hash [(''a'', AggV 1)])],
      base = Some 0\<rparr>,
     \<lparr>name = ''date_histogram'', params = [(''aggs'', Hash [(''m'', AggV 2)])], base = Some 1\<rparr>,
     \<lparr>name = ''max'', params = [], base = None\<rparr>]"

definition chained_pipeline :: heap where
  "chained_pipeline =
    [\<lparr>name = ''terms'',
      params = [(''field'', One (Raw (JStr ''tags''))), (''aggs'', Hash [(''a'', AggV 1)])],
      base = Some 0\<rparr>,
     \<lparr>name = ''date_histogram'', params = [(''aggs'', Hash [(''d'', AggV 2)])], base = Some 1\<rparr>,
     \<lparr>name = ''derivative'', params = [], base = None\<rparr>]"

text \<open>A \<open>terms\<close> bucket (address 1) with a \<open>meta\<close> parameter and a \<open>max\<close> child.\<close>

definition terms_store :: heap where
  "terms_store =
    [\<lparr>name = ''max'', params = [(''field'', One (Raw (JStr ''y'')))], base = None\<rparr>,
     \<lparr>name = ''terms'',
      params = [(''field'', One (Raw (JStr ''tags''))),
                (''meta'', One (Raw (JObj [(''a'', JInt 1)]))),
                (''aggs'', Hash [(''x'', AggV 0)])],
      base = Some 1\<rparr>]"


section \<open>Properties\<close>

declare A.simps [simp del] new_agg.simps [simp del]

subsection \<open>The store only grows\<close>

lemma A_extends_all:
  "(\<forall>a h'. A x f ps h = Inr (a, h') \<longrightarrow> (\<exists>xs. h' = h @ xs))"
  "(\<forall>a h'. new_agg cls e ps1 h1 = Inr (a, h') \<longrightarrow> (\<exists>xs. h' = h1 @ xs))"
  "(\<forall>r h'. init cls2 ps2 acc h2 = Inr (r, h') \<longrightarrow> (\<exists>xs. h' = h2 @ xs))"
  "(\<forall>r h'. coerce_aggs kvs h3 = Inr (r, h') \<longrightarrow> (\<exists>xs. h' = h3 @ xs))"
  "(\<forall>r h'. coerce_sources ds h4 = Inr (r, h') \<longrightarrow> (\<exists>xs. h' = h4 @ xs))"
proof (induction x f ps h and cls e ps1 h1 and cls2 ps2 acc h2 and kvs h3 and ds h4
    rule: A_new_agg_init_coerce_aggs_coerce_sources.induct)
  case (1 x fltr ps h)
  then show ?case
    by (subst A.simps) (auto split: name_or_agg.splits list.splits sum.splits json.splits if_splits)
next
  case (2 cls e ps h)
  then show ?case
    by (subst new_agg.simps) (auto split: sum.splits if_splits)
next
  case (3 cls acc h)
  then show ?case by simp
next
  case (4 cls pname pvalue rest acc h)
  show ?case
  proof (intro allI impI)
    fix r h'
    assume eq: "init cls ((pname, pvalue) # rest) acc h = Inr (r, h')"
    show "\<exists>xs. h' = h @ xs"
    proof (cases "map_of (param_defs cls) pname")
      case None
      with eq "4.IH"(1) show ?thesis by simp
    next
      case (Some t)
      show ?thesis
      proof (cases t)
        case AggHash
        with eq Some obtain kvs kvs' h1 where
          i: "items_of pvalue = Some kvs" and c: "coerce_aggs kvs h = Inr (kvs', h1)"
          and r: "init cls rest (AList.update pname (Hash kvs') acc) h1 = Inr (r, h')"
          by (auto split: option.splits sum.splits)
        from "4.IH"(2) [OF Some AggHash i] c obtain xs where "h1 = h @ xs" by blast
        moreover from "4.IH"(3) [OF Some AggHash i c refl] r obtain ys where "h' = h1 @ ys" by blast
        ultimately show ?thesis by simp
      next
        case AggMultiHash
        with eq Some obtain l h1 where
          c: "coerce_sources (dicts_of pvalue) h = Inr (l, h1)"
          and r: "init cls rest (AList.update pname (MultiHash l) acc) h1 = Inr (r, h')"
          by (auto split: option.splits sum.splits)
        from "4.IH"(4) [OF Some AggMultiHash] c obtain xs where "h1 = h @ xs" by blast
        moreover from "4.IH"(5) [OF Some AggMultiHash c refl] r obtain ys where "h' = h1 @ ys" by blast
        ultimately show ?thesis by simp
      next
        case QueryOne
        with eq Some "4.IH"(6) show ?thesis
          by (auto split: pval.splits sum.splits)
      next
        case QueryHash
        with eq Some "4.IH"(7) show ?thesis
          by (auto split: option.splits sum.splits)
      qed
    qed
  qed
next
  case (5 h)
  then show ?case by simp
next
  case (6 k v rest h)
  show ?case
  proof (intro allI impI)
    fix r h'
    assume eq: "coerce_aggs ((k, v) # rest) h = Inr (r, h')"
    then obtain x a h1 kvs where
      x: "as_name_or_agg v = Inr x" and a: "A x None [] h = Inr (a, h1)"
      and c: "coerce_aggs rest h1 = Inr (kvs, h')"
      by (auto split: sum.splits)
    from "6.IH"(1) [OF x] a obtain xs where "h1 = h @ xs" by blast
    moreover from "6.IH"(2) [OF x a refl] c obtain ys where "h' = h1 @ ys" by blast
    ultimately show "\<exists>xs. h' = h @ xs" by simp
  qed
next
  case (7 h)
  then show ?case by simp
next
  case (8 d ds h)
  show ?case
  proof (intro allI impI)
    fix r h'
    assume eq: "coerce_sources (d # ds) h = Inr (r, h')"
    then obtain kvs kvs' h1 l where
      i: "items_of d = Some kvs" and a: "coerce_aggs kvs h = Inr (kvs', h1)"
      and c: "coerce_sources ds h1 = Inr (l, h')"
      by (auto split: option.splits sum.splits)
    from "8.IH"(1) [OF i] a obtain xs where "h1 = h @ xs" by blast
    moreover from "8.IH"(2) [OF i a refl] c obtain ys where "h' = h1 @ ys" by blast
    ultimately show "\<exists>xs. h' = h @ xs" by simp
  qed
qed


lemma A_extends: "A x f ps h = Inr (a, h') \<Longrightarrow> \<exists>xs. h' = h @ xs"
  using A_extends_all(1) by blast

lemma init_extends: "init cls ps acc h = Inr (r, h') \<Longrightarrow> \<exists>xs. h' = h @ xs"
  using A_extends_all(3) by blast

lemma get_dsl_class_Inr: "get_dsl_class s = Inr cls \<Longrightarrow> cls = s"
  by (auto simp: get_dsl_class_def split: option.splits)

lemma A_Name_new:
  assumes "A (Name s) f ps h = Inr (a, h')"
  shows "length h \<le> a \<and> length h' = Suc a \<and> name (h' ! a) = s
          \<and> base (h' ! a) = (if isinstance_Bucket s then Some a else None)
          \<and> (\<exists>xs. h' = h @ xs)"
proof -
  from assms obtain ps0 where n: "new_agg s None ps0 h = Inr (a, h')"
    by (auto simp: A.simps split: if_splits sum.splits dest: get_dsl_class_Inr)
  then obtain ps' h1 where
    i: "init s (AList.delete ''_expand__to_dot'' (class_init s ps0)) [] h = Inr (ps', h1)"
    and a: "a = length h1"
    and h': "h' = h1 @ [\<lparr>name = s, params = ps',
                base = (if isinstance_Bucket s then Some (length h1) else None)\<rparr>]"
    by (auto simp: new_agg.simps split: sum.splits if_splits)
  from init_extends [OF i] obtain xs where "h1 = h @ xs" by blast
  with a h' show ?thesis by auto
qed

lemma delete_absent: "map_of xs k = None \<Longrightarrow> AList.delete k xs = xs"
  by (simp add: delete_id map_of_eq_None_iff)

lemma A_call_keyword_None:
  assumes "A_call x None (Some (One (Raw JNull))) kw h = Inr r"
  shows "''filter'' \<notin> fst ` set kw \<and> ''name_or_agg'' \<notin> fst ` set kw \<and> A x None kw h = Inr r"
proof -
  from assms have k: "''filter'' \<notin> fst ` set kw" "''name_or_agg'' \<notin> fst ` set kw"
    by (auto simp: A_call_def split: if_splits)
  then have "AList.delete ''filter'' kw = kw" by (simp add: delete_id)
  with assms k show ?thesis by (simp add: A_call_def)
qed

lemma A_call_Inr:
  assumes "A_call x pos key kw h = Inr r"
  shows "\<exists>f ps. A x f ps h = Inr r"
  using assms by (auto simp: A_call_def Let_def split: if_splits)

lemma child_store_child:
  "items_of (get_aggs ps) = Some kvs \<Longrightarrow>
     items_of (get_aggs (store_child k c ps)) = Some (AList.update k (AggV c) kvs)"
  by (auto simp: store_child_def get_aggs_def update_conv' split: option.splits)

lemma getitem_AggV:
  assumes g: "AggBase_getitem self k h = (Inr (AggV c), h')"
  shows "self < length h \<and> length h \<le> length h' \<and>
         (\<forall>a < length h. name (h' ! a) = name (h ! a) \<and> base (h' ! a) = base (h ! a)) \<and>
         (\<forall>a < length h. a \<noteq> self \<longrightarrow> h' ! a = h ! a) \<and>
         child h' self k = Some (AggV c) \<and> c < length h' \<and>
         (\<exists>c0 < length h. child h self k = Some (AggV c0) \<and>
            (if isinstance_Bucket (name (h ! c0))
             then length h \<le> c \<and> length h' = Suc c \<and> name (h' ! c) = name (h ! c0) \<and>
                  ''filter'' \<notin> fst ` set (params (h ! c0)) \<and>
                  (\<exists>hA. A (Name (name (h ! c0))) None
                          (if c0 = self then setdefault_aggs (params (h ! c0)) else params (h ! c0))
                          (h[self := (h ! self)\<lparr>params := setdefault_aggs (params (h ! self))\<rparr>])
                        = Inr (c, hA) \<and> hA ! c = h' ! c)
             else c = c0))"
proof -
  let ?h1 = "h[self := (h ! self)\<lparr>params := setdefault_aggs (params (h ! self))\<rparr>]"
  from g have self: "self < length h"
    by (auto simp: AggBase_getitem_def split: if_splits)
  have ga: "get_aggs (setdefault_aggs ps) = get_aggs ps" for ps
    by (auto simp: get_aggs_def setdefault_aggs_def split: option.splits)
  from g self obtain kvs c0 where
    kvs: "items_of (get_aggs (params (h ! self))) = Some kvs"
    and c0: "map_of kvs k = Some (AggV c0)" and c0l: "c0 < length h"
    and rest: "if isinstance_Bucket (name (?h1 ! c0))
       then \<exists>h2. A_call (Name (name (?h1 ! c0))) None (Some (One (Raw JNull)))
                   (params (?h1 ! c0)) ?h1 = Inr (c, h2) \<and>
               h' = h2[self := (h2 ! self)\<lparr>params := store_child k c (params (h2 ! self))\<rparr>]
       else c = c0 \<and> h' = ?h1"
    by (auto simp: AggBase_getitem_def Let_def ga split: if_splits option.splits val.splits sum.splits)
  have nm1: "name (?h1 ! a) = name (h ! a)" "base (?h1 ! a) = base (h ! a)" if "a < length h" for a
    using that self by (simp_all add: nth_list_update)
  have ch: "child h self k = Some (AggV c0)"
    using kvs c0 by (simp add: child_def)
  show ?thesis
  proof (cases "isinstance_Bucket (name (h ! c0))")
    case False
    with rest c0l nm1 have "c = c0" "h' = ?h1" by auto
    with self c0l kvs c0 ch False show ?thesis
      by (auto simp: child_def ga nth_list_update)
  next
    case True
    with rest c0l nm1 obtain h2 where
      Ac: "A_call (Name (name (h ! c0))) None (Some (One (Raw JNull))) (params (?h1 ! c0)) ?h1
             = Inr (c, h2)"
      and h': "h' = h2[self := (h2 ! self)\<lparr>params := store_child k c (params (h2 ! self))\<rparr>]"
      by auto
    from A_call_keyword_None [OF Ac]
    have A: "A (Name (name (h ! c0))) None (params (?h1 ! c0)) ?h1 = Inr (c, h2)"
      and nf1: "''filter'' \<notin> fst ` set (params (?h1 ! c0))" by simp_all
    have "fst ` set (params (h ! c0)) \<subseteq> fst ` set (params (?h1 ! c0))"
      using c0l self by (cases "c0 = self") (auto simp: setdefault_aggs_def split: option.splits)
    with nf1 have nf: "''filter'' \<notin> fst ` set (params (h ! c0))" by blast
    from A_Name_new [OF A] obtain xs where
      f: "length h \<le> c" "length h2 = Suc c" "name (h2 ! c) = name (h ! c0)" and h2: "h2 = ?h1 @ xs"
      by auto
    have s2: "h2 ! self = ?h1 ! self" using self h2 by (simp add: nth_append)
    have old: "h2 ! a = ?h1 ! a" if "a < length h" for a using that h2 by (simp add: nth_append)
    have cs: "c \<noteq> self" using f self by simp
    have sl2: "self < length h2" using f self by simp
    have p1: "params (?h1 ! c0) = (if c0 = self then setdefault_aggs (params (h ! c0)) else params (h ! c0))"
      using c0l by auto
    have "child h' self k = Some (AggV c)"
      using self sl2 h' s2 f kvs child_store_child [of "params (?h1 ! self)" kvs k c]
      by (simp add: child_def ga update_conv')
    moreover have "\<forall>a < length h. name (h' ! a) = name (h ! a) \<and> base (h' ! a) = base (h ! a)"
    proof (intro allI impI)
      fix a assume a: "a < length h"
      then have "a < length h2" using f by simp
      then have "name (h' ! a) = name (h2 ! a)" "base (h' ! a) = base (h2 ! a)"
        using sl2 by (simp_all add: h' nth_list_update)
      then show "name (h' ! a) = name (h ! a) \<and> base (h' ! a) = base (h ! a)"
        using old [OF a] nm1 [OF a] by simp
    qed
    moreover have "\<forall>a < length h. a \<noteq> self \<longrightarrow> h' ! a = h ! a"
      using h' old by simp
    moreover have "h2 ! c = h' ! c" using h' cs by simp
    ultimately show ?thesis
      using self f h' True c0l ch A p1 cs nf
      by (intro conjI) (auto simp: intro!: exI [of _ c0])
  qed
qed

subsection \<open>What serialization keeps of the parameters\<close>

lemma hash_to_dict_lookup:
  "hash_to_dict n h kvs = Inr cj \<Longrightarrow> map_of kvs k = Some v \<Longrightarrow>
     \<exists>j. map_of cj k = Some j \<and> val_to_dict n h v = Inr j"
  by (induction kvs arbitrary: cj) (auto split: sum.splits if_splits)

lemma hash_to_dict_keys: "hash_to_dict n h kvs = Inr cj \<Longrightarrow> map fst cj = map fst kvs"
  by (induction kvs arbitrary: cj) (auto split: sum.splits)

lemma DslBase_to_dict_lookup:
  "DslBase_to_dict n h cls ps = Inr d \<Longrightarrow> map_of ps key = Some v \<Longrightarrow>
     \<not> (map_of (param_defs cls) key \<noteq> None \<and> is_empty v) \<Longrightarrow>
     \<exists>j. map_of d key = Some j \<and> pval_to_dict n h v = Inr j"
  by (induction ps arbitrary: d) (auto split: sum.splits if_splits)

lemma DslBase_to_dict_keys:
  "DslBase_to_dict n h cls ps = Inr d \<Longrightarrow> fst ` set d \<subseteq> fst ` set ps"
proof (induction ps arbitrary: d)
  case Nil
  then show ?case by simp
next
  case (Cons p ps)
  obtain k v where p: "p = (k, v)" by (cases p)
  show ?case
  proof (cases "map_of (param_defs cls) k \<noteq> None \<and> is_empty v")
    case True
    with Cons.prems p have "DslBase_to_dict n h cls ps = Inr d" by simp
    from Cons.IH [OF this] show ?thesis by auto
  next
    case False
    with Cons.prems p obtain j d' where
      d: "d = (k, j) # d'" and r: "DslBase_to_dict n h cls ps = Inr d'"
      by (auto split: sum.splits)
    from Cons.IH [OF r] d p show ?thesis by auto
  qed
qed

lemma DslBase_to_dict_absent:
  "DslBase_to_dict n h cls ps = Inr d \<Longrightarrow> map_of ps key = None \<Longrightarrow> map_of d key = None"
  using DslBase_to_dict_keys [of n h cls ps d] by (auto simp: map_of_eq_None_iff)

lemma DslBase_to_dict_distinct:
  "DslBase_to_dict n h cls ps = Inr d \<Longrightarrow> distinct (map fst ps) \<Longrightarrow> distinct (map fst d)"
proof (induction ps arbitrary: d)
  case Nil
  then show ?case by simp
next
  case (Cons p ps)
  obtain k v where p: "p = (k, v)" by (cases p)
  show ?case
  proof (cases "map_of (param_defs cls) k \<noteq> None \<and> is_empty v")
    case True
    with Cons p show ?thesis by simp
  next
    case False
    with Cons.prems p obtain j d' where
      d: "d = (k, j) # d'" and r: "DslBase_to_dict n h cls ps = Inr d'"
      by (auto split: sum.splits)
    from DslBase_to_dict_keys [OF r] Cons.prems(2) p have "k \<notin> fst ` set d'" by auto
    with Cons.IH [OF r] Cons.prems(2) d show ?thesis by simp
  qed
qed

lemma Agg_to_dict_eq:
  "cls \<noteq> ''meta'' \<Longrightarrow>
   Agg_to_dict cls [(cls, JObj inner)] =
     (cls, JObj (AList.delete ''meta'' inner)) # siblings False inner"
  by (auto simp: Agg_to_dict_def hoist_def siblings_def delete_absent split: option.splits)

lemma Bucket_to_dict_eq:
  "cls \<noteq> ''meta'' \<Longrightarrow> cls \<noteq> ''aggs'' \<Longrightarrow>
   Bucket_to_dict cls [(cls, JObj inner)] =
     (cls, JObj (AList.delete ''aggs'' (AList.delete ''meta'' inner))) # siblings True inner"
  by (auto simp: Bucket_to_dict_def Agg_to_dict_def hoist_def siblings_def delete_absent
        delete_conv' split: option.splits)

lemma registered_not_reserved:
  "category_of cls \<noteq> None \<Longrightarrow> cls \<noteq> ''meta'' \<and> cls \<noteq> ''aggs''"
  by (auto simp: category_of_def bucket_names_def metric_names_def pipeline_names_def)

lemma filter_is_bucket: "isinstance_Bucket ''filter''"
  by (simp add: isinstance_Bucket_def bucket_names_def)

lemma map_of_dict_update:
  "distinct (map fst q) \<Longrightarrow> map_of (dict_update n q) = map_of n ++ map_of q"
proof (induction q arbitrary: n)
  case Nil
  show ?case by (simp add: dict_update_def)
next
  case (Cons p q)
  obtain k v where p: "p = (k, v)" by (cases p)
  from Cons.prems p have d: "distinct (map fst q)" and k: "map_of q k = None"
    by (auto simp: map_of_eq_None_iff)
  have "dict_update n (p # q) = dict_update (AList.update k v n) q"
    by (simp add: dict_update_def p)
  with Cons.IH [OF d, of "AList.update k v n"] k show ?case
    by (auto simp: p update_conv' map_add_def fun_eq_iff split: option.splits)
qed

lemma map_of_dict_update_fields:
  "map_of (dict_update n (AList.clearjunk q)) = map_of n ++ map_of q"
  by (simp add: map_of_dict_update distinct_clearjunk map_of_clearjunk)

lemma Filter_to_dict_eq:
  "Filter_to_dict [(''filter'', JObj inner)] =
     (case map_of inner ''filter'' of
        None \<Rightarrow>
          Inr ((''filter'', JObj (AList.delete ''aggs'' (AList.delete ''meta'' inner)))
                 # siblings True inner)
      | Some x \<Rightarrow>
          (case update_items x of
             Inl e \<Rightarrow> Inl e
           | Inr items \<Rightarrow>
               Inr ((''filter'',
                     JObj (dict_update
                             (AList.delete ''filter'' (AList.delete ''aggs'' (AList.delete ''meta'' inner)))
                             items))
                      # siblings True inner)))"
  apply (simp add: Filter_to_dict_def Let_def Bucket_to_dict_eq delete_conv')
  apply (simp split: option.splits sum.splits)
  done

lemma map_of_siblings_meta: "map_of (siblings b inner) ''meta'' = map_of inner ''meta''"
  by (cases "map_of inner ''meta''"; cases "map_of inner ''aggs''"; cases b)
    (simp_all add: siblings_def)

lemma map_of_siblings_aggs:
  "map_of (siblings b inner) ''aggs'' = (if b then map_of inner ''aggs'' else None)"
  by (cases "map_of inner ''meta''"; cases "map_of inner ''aggs''"; cases b)
    (simp_all add: siblings_def)

lemma keys_siblings: "fst ` set (siblings b inner) \<subseteq> {''meta'', ''aggs''}"
  by (cases "map_of inner ''meta''"; cases "map_of inner ''aggs''"; cases b)
    (simp_all add: siblings_def)

lemma distinct_siblings: "distinct (map fst (siblings b inner))"
  by (cases "map_of inner ''meta''"; cases "map_of inner ''aggs''"; cases b)
    (simp_all add: siblings_def)

lemmas map_of_siblings = map_of_siblings_meta map_of_siblings_aggs keys_siblings distinct_siblings

lemma class_to_dict_shape:
  assumes reg: "category_of cls \<noteq> None"
    and flt: "cls = ''filter'' \<longrightarrow>
      (\<forall>j. map_of inner ''filter'' = Some j \<longrightarrow>
         (\<exists>q. j = JObj q \<and> ''meta'' \<notin> fst ` set q \<and> ''aggs'' \<notin> fst ` set q))"
  shows "\<exists>ko. class_to_dict cls [(cls, JObj inner)]
                 = Inr ((cls, JObj ko) # siblings (isinstance_Bucket cls) inner)
          \<and> map_of ko ''meta'' = None
          \<and> (if isinstance_Bucket cls then map_of ko ''aggs'' = None
             else map_of ko ''aggs'' = map_of inner ''aggs'')"
proof -
  note nr = registered_not_reserved [OF reg]
  show ?thesis
  proof (cases "cls = ''filter''")
    case True
    show ?thesis
    proof (cases "map_of inner ''filter''")
      case None
      with True show ?thesis
        by (simp add: class_to_dict_def Filter_to_dict_eq filter_is_bucket delete_conv')
    next
      case (Some j)
      with flt True obtain q where j: "j = JObj q"
        and q: "''meta'' \<notin> fst ` set q" "''aggs'' \<notin> fst ` set q" by blast
      from q have "map_of q ''meta'' = None" "map_of q ''aggs'' = None"
        by (simp_all add: map_of_eq_None_iff)
      with True Some j show ?thesis
        by (simp add: class_to_dict_def Filter_to_dict_eq filter_is_bucket delete_conv'
              map_of_dict_update_fields map_add_def)
    qed
  next
    case False
    with nr show ?thesis
      by (simp add: class_to_dict_def Bucket_to_dict_eq Agg_to_dict_eq delete_conv')
  qed
qed

lemma bucket_not_reserved:
  "isinstance_Bucket cls \<Longrightarrow> cls \<noteq> ''meta'' \<and> cls \<noteq> ''aggs''"
  by (auto simp: isinstance_Bucket_def bucket_names_def)

lemma class_to_dict_siblings:
  assumes b: "isinstance_Bucket cls"
    and c: "class_to_dict cls [(cls, JObj inner)] = Inr d"
  shows "map_of d ''aggs'' = map_of inner ''aggs'' \<and> map_of d ''meta'' = map_of inner ''meta''"
proof -
  note nr = bucket_not_reserved [OF b]
  from b c nr obtain ko where "d = (cls, JObj ko) # siblings True inner"
    by (auto simp: class_to_dict_def Filter_to_dict_eq Bucket_to_dict_eq
          split: if_splits option.splits sum.splits)
  with nr show ?thesis by (auto simp: map_of_siblings)
qed

lemma get_aggs_setdefault: "get_aggs (setdefault_aggs ps) = get_aggs ps"
  by (auto simp: get_aggs_def setdefault_aggs_def split: option.splits)

lemma child_has_hash:
  assumes "child h self k = Some (AggV c)"
  shows "\<exists>kvs. map_of (params (h ! self)) ''aggs'' = Some (Hash kvs) \<and> map_of kvs k = Some (AggV c)"
proof -
  from assms obtain kvs where i: "items_of (get_aggs (params (h ! self))) = Some kvs"
    and m: "map_of kvs k = Some (AggV c)"
    by (auto simp: child_def split: option.splits)
  show ?thesis
  proof (cases "map_of (params (h ! self)) ''aggs''")
    case None
    with i m show ?thesis by (simp add: get_aggs_def)
  next
    case (Some v)
    with i have iv: "items_of v = Some kvs" by (simp add: get_aggs_def)
    have "v = Hash kvs"
    proof (cases v rule: items_of.cases)
      case (1 kvs')
      with iv show ?thesis by simp
    next
      case (2 kv)
      with iv have "kvs = map (\<lambda>(k, j). (k, Raw j)) kv" by simp
      with m have "(k, AggV c) \<in> set (map (\<lambda>(k, j). (k, Raw j)) kv)"
        by (auto dest: map_of_SomeD)
      then have False by auto
      then show ?thesis ..
    qed (use iv in auto)
    with Some m show ?thesis by simp
  qed
qed

lemma to_dict_child_entry:
  assumes s: "self < length h" and b: "isinstance_Bucket (name (h ! self))"
    and ch: "child h self k = Some (AggV c)"
    and t: "to_dict (Suc n) h self = Inr (JObj d)"
  shows "\<exists>cj j. map_of d ''aggs'' = Some (JObj cj) \<and> map_of cj k = Some j \<and> to_dict n h c = Inr j"
proof -
  let ?cls = "name (h ! self)" and ?ps = "params (h ! self)"
  from t s obtain inner where
    inner: "DslBase_to_dict n h ?cls ?ps = Inr inner"
    and c: "class_to_dict ?cls [(?cls, JObj inner)] = Inr d"
    by (auto split: sum.splits)
  from child_has_hash [OF ch] obtain kvs where
    kvs: "map_of ?ps ''aggs'' = Some (Hash kvs)" and m: "map_of kvs k = Some (AggV c)" by blast
  from m have "kvs \<noteq> []" by auto
  then have "\<not> is_empty (Hash kvs)" by (simp add: is_empty_def)
  with DslBase_to_dict_lookup [OF inner kvs] obtain j' where
    j': "map_of inner ''aggs'' = Some j'" "pval_to_dict n h (Hash kvs) = Inr j'" by blast
  then obtain cj where cj: "hash_to_dict n h kvs = Inr cj" "j' = JObj cj"
    by (auto split: sum.splits)
  from hash_to_dict_lookup [OF cj(1) m] obtain j where
    "map_of cj k = Some j" "to_dict n h c = Inr j" by auto
  with class_to_dict_siblings [OF b c] j' cj show ?thesis by auto
qed

subsection \<open>What the constructor keeps, and what the container operations change\<close>

lemma init_untyped:
  "init cls ps acc h = Inr (r, h') \<Longrightarrow> map_of (param_defs cls) p = None \<Longrightarrow>
   distinct (map fst ps) \<Longrightarrow>
   map_of r p = (case map_of ps p of Some v \<Rightarrow> Some v | None \<Rightarrow> map_of acc p)"
proof (induction ps arbitrary: acc h)
  case Nil
  then show ?case by simp
next
  case (Cons x ps)
  obtain pname pvalue where x: "x = (pname, pvalue)" by (cases x)
  from Cons.prems(1) x obtain acc' h1 where
    r: "init cls ps acc' h1 = Inr (r, h')"
    and acc': "(\<exists>w. acc' = AList.update pname w acc)
                \<and> (map_of (param_defs cls) pname = None \<longrightarrow> acc' = AList.update pname pvalue acc)"
    by (auto split: option.splits ptype.splits sum.splits pval.splits)
  from Cons.prems(3) x have d: "distinct (map fst ps)" and nin: "pname \<notin> fst ` set ps" by auto
  from Cons.IH [OF r Cons.prems(2) d]
  have ih: "map_of r p = (case map_of ps p of Some v \<Rightarrow> Some v | None \<Rightarrow> map_of acc' p)" .
  show ?case
  proof (cases "pname = p")
    case True
    with nin have "map_of ps p = None" by (simp add: map_of_eq_None_iff)
    with ih acc' True Cons.prems(2) x show ?thesis by (auto simp: update_conv')
  next
    case False
    with ih acc' x show ?thesis by (auto simp: update_conv' split: option.splits)
  qed
qed

lemma class_init_untyped:
  assumes "map_of (param_defs cls) p = None" "distinct (map fst ps)"
  shows "map_of (class_init cls ps) p = map_of ps p \<and> distinct (map fst (class_init cls ps))"
proof (cases "cls = ''filter''")
  case False
  with assms show ?thesis by (simp add: class_init_def)
next
  case True
  with assms(1) have "p \<noteq> ''filter''" by (auto simp: param_defs_def)
  with True assms(2) show ?thesis
    by (auto simp: class_init_def Filter_init_def update_conv' delete_conv' distinct_update
          distinct_delete split: option.splits)
qed

lemma A_Name_params:
  assumes "A (Name s) None ps h = Inr (a, h')"
  shows "\<exists>r hB. init s (AList.delete ''_expand__to_dot'' (class_init s ps)) [] h = Inr (r, hB) \<and>
           params (h' ! a) = r \<and> h' = hB @ [h' ! a]"
proof -
  from assms have n: "new_agg s None ps h = Inr (a, h')"
    by (auto simp: A.simps split: if_splits sum.splits dest: get_dsl_class_Inr)
  then show ?thesis
    by (auto simp: new_agg.simps split: sum.splits if_splits)
qed

lemma getitem_bucket_fresh:
  assumes g: "AggBase_getitem self k h = (Inr (AggV c), h')"
    and bc: "isinstance_Bucket (name (h' ! c))"
  shows "self < length h \<and> length h \<le> c \<and> c < length h' \<and> length h \<le> length h' \<and>
         child h' self k = Some (AggV c)"
proof -
  from getitem_AggV [OF g] obtain c0 where
    self: "self < length h" and len: "length h \<le> length h'"
    and nm: "\<forall>a < length h. name (h' ! a) = name (h ! a) \<and> base (h' ! a) = base (h ! a)"
    and ch: "child h' self k = Some (AggV c)" and cl: "c < length h'"
    and c0: "c0 < length h"
    and br: "if isinstance_Bucket (name (h ! c0)) then length h \<le> c else c = c0"
    by (auto split: if_splits)
  have "length h \<le> c"
  proof (cases "isinstance_Bucket (name (h ! c0))")
    case True
    with br show ?thesis by simp
  next
    case False
    with br nm c0 bc show ?thesis by auto
  qed
  with self len ch cl show ?thesis by simp
qed

lemma setitem_AggV:
  assumes "AggBase_setitem self nm (AggV a) h = Inr h2"
  shows "self < length h \<and> length h2 = length h \<and> child h2 self nm = Some (AggV a) \<and>
         (\<forall>x < length h. name (h2 ! x) = name (h ! x) \<and> base (h2 ! x) = base (h ! x))"
proof -
  from assms have self: "self < length h"
    by (auto simp: AggBase_setitem_def split: if_splits)
  with assms obtain kvs where
    kvs: "items_of (get_aggs (params (h ! self))) = Some kvs"
    and h2: "h2 = h[self := (h ! self)
               \<lparr>params := store_child nm a (setdefault_aggs (params (h ! self)))\<rparr>]"
    by (auto simp: AggBase_setitem_def A.simps split: if_splits option.splits)
  from kvs have "items_of (get_aggs (setdefault_aggs (params (h ! self)))) = Some kvs"
    by (simp add: get_aggs_setdefault)
  from child_store_child [OF this, of nm a] have "child h2 self nm = Some (AggV a)"
    using self h2 by (simp add: child_def update_conv')
  moreover have "\<forall>x < length h. name (h2 ! x) = name (h ! x) \<and> base (h2 ! x) = base (h ! x)"
    using self h2 by (simp add: nth_list_update)
  ultimately show ?thesis using self h2 by simp
qed

lemma AggBase_agg_result:
  assumes "AggBase_agg self is_bucket nm kind args ps h = Inr (r, h')"
  shows "(\<forall>a < length h. base (h' ! a) = base (h ! a)) \<and>
     (if is_bucket
      then length h \<le> r \<and> r < length h' \<and> name (h' ! r) = kind \<and>
           child h' self nm = Some (AggV r) \<and>
           (isinstance_Bucket kind \<longrightarrow> base (h' ! r) = Some r)
      else base (h ! self) = Some r)"
proof -
  from assms have self: "self < length h"
    by (auto simp: AggBase_agg_def split: if_splits)
  with assms obtain agg h1 where
    Ac: "A_call (Name kind) args None ps h = Inr (agg, h1)"
    and s: "AggBase_setitem self nm (AggV agg) h1 = Inr h'"
    and ret: "if is_bucket then r = agg else base (h' ! self) = Some r"
    by (auto simp: AggBase_agg_def split: if_splits sum.splits option.splits)
  from A_call_Inr [OF Ac] obtain f ps' where
    A: "A (Name kind) f ps' h = Inr (agg, h1)" by blast
  from A_Name_new [OF A] obtain xs where
    n: "length h \<le> agg" "length h1 = Suc agg" "name (h1 ! agg) = kind"
       "base (h1 ! agg) = (if isinstance_Bucket kind then Some agg else None)"
    and h1: "h1 = h @ xs" by auto
  from setitem_AggV [OF s] have
    l: "length h' = length h1" and ch: "child h' self nm = Some (AggV agg)"
    and fr: "\<forall>x < length h1. name (h' ! x) = name (h1 ! x) \<and> base (h' ! x) = base (h1 ! x)"
    by auto
  have old: "base (h' ! a) = base (h ! a)" if "a < length h" for a
    using that fr h1 n by (simp add: nth_append)
  show ?thesis
  proof (cases is_bucket)
    case True
    with ret n l ch fr old show ?thesis by auto
  next
    case False
    with ret old self show ?thesis by auto
  qed
qed

subsection \<open>The mapping branch of the factory\<close>

lemma reattach_JObj: "reattach key x (JObj kv) = Inr (JObj (reattached key x kv))"
  by (cases x) (simp_all add: reattach_def reattached_def)

lemma registered_class: "category_of k \<noteq> None \<Longrightarrow> get_dsl_class k = Inr k"
  by (cases "category_of k") (simp_all add: get_dsl_class_def)


lemma A_Mapping_eq:
  assumes d: "AList.delete ''meta'' (AList.delete ''aggs'' m) = [(k, JObj kv)]"
    and reg: "category_of k \<noteq> None"
  shows "A (Mapping m) None [] h =
           new_agg k (Some False)
             (kwargs (reattached ''meta'' (map_of m ''meta'')
                       (reattached ''aggs'' (map_of m ''aggs'') kv))) h"
  apply (subst A.simps)
  apply (simp only: d list.case prod.case reattach_JObj registered_class [OF reg] sum.case
      json.case name_or_agg.case simp_thms if_True if_False name_or_agg.distinct)
  done


lemma A_Mapping_shape_error:
  assumes "length (AList.delete ''meta'' (AList.delete ''aggs'' m)) \<noteq> 1"
  shows "A (Mapping m) None [] h = Inl (ValueError NotOneAggregation)"
proof (cases "AList.delete ''meta'' (AList.delete ''aggs'' m)")
  case Nil
  show ?thesis
    by (subst A.simps)
      (simp only: Nil list.case name_or_agg.case simp_thms if_True if_False name_or_agg.distinct)
next
  case (Cons x xs)
  with assms obtain y ys where xs: "xs = y # ys" by (cases xs) auto
  obtain k p where x: "x = (k, p)" by (cases x)
  show ?thesis
    by (subst A.simps)
      (simp only: Cons xs x list.case prod.case name_or_agg.case simp_thms if_True if_False
        name_or_agg.distinct)
qed

lemma init_all_untyped:
  "\<forall>key \<in> fst ` set ps. map_of (param_defs cls) key = None \<Longrightarrow>
     \<exists>r. init cls ps acc h = Inr (r, h)"
proof (induction ps arbitrary: acc)
  case Nil
  then show ?case by simp
next
  case (Cons x ps)
  obtain key v where x: "x = (key, v)" by (cases x)
  with Cons.prems have "map_of (param_defs cls) key = None" by simp
  moreover from Cons.prems have "\<forall>key \<in> fst ` set ps. map_of (param_defs cls) key = None" by simp
  from Cons.IH [OF this] obtain r where "init cls ps (AList.update key v acc) h = Inr (r, h)" by blast
  ultimately show ?case using x by simp
qed

lemma keys_class_init: "fst ` set (class_init cls ps) \<subseteq> fst ` set ps"
proof (cases "cls = ''filter''")
  case False
  then show ?thesis by (simp add: class_init_def)
next
  case True
  show ?thesis
  proof (cases "map_of ps ''filter''")
    case None
    with True show ?thesis by (simp add: class_init_def Filter_init_def)
  next
    case (Some f)
    then have "''filter'' \<in> fst ` set ps" by (force dest: map_of_SomeD)
    with True Some dom_delete_subset [of "''filter''" ps] show ?thesis
      by (auto simp: class_init_def Filter_init_def dom_update)
  qed
qed

lemma keys_kwargs: "map fst (kwargs kv) = map fst kv"
  by (induction kv) (auto simp: kwargs_def)

lemma map_of_kwargs: "map_of (kwargs kv) key = map_option (\<lambda>j. One (Raw j)) (map_of kv key)"
  by (induction kv) (auto simp: kwargs_def)

lemma init_absent:
  "init cls ps acc h = Inr (r, h') \<Longrightarrow> key \<notin> fst ` set ps \<Longrightarrow> map_of r key = map_of acc key"
proof (induction ps arbitrary: acc h)
  case Nil
  then show ?case by simp
next
  case (Cons x ps)
  obtain pname pvalue where x: "x = (pname, pvalue)" by (cases x)
  from Cons.prems(1) x obtain w h1 where
    r: "init cls ps (AList.update pname w acc) h1 = Inr (r, h')"
    by (auto split: option.splits ptype.splits sum.splits pval.splits)
  from Cons.prems(2) x have "key \<notin> fst ` set ps" "pname \<noteq> key" by auto
  with Cons.IH [OF r] show ?case by (simp add: update_conv')
qed

lemma coerce_aggs_keys:
  "coerce_aggs kvs h = Inr (kvs', h') \<Longrightarrow>
     map fst kvs' = map fst kvs \<and> (\<forall>x \<in> snd ` set kvs'. \<exists>c. x = AggV c)"
proof (induction kvs arbitrary: h kvs')
  case Nil
  then show ?case by simp
next
  case (Cons x kvs)
  obtain k v where x: "x = (k, v)" by (cases x)
  from Cons.prems x obtain a h1 rest where
    c: "coerce_aggs kvs h1 = Inr (rest, h')" and k: "kvs' = (k, AggV a) # rest"
    by (auto split: sum.splits)
  from Cons.IH [OF c] k x show ?case by auto
qed

lemma init_typed_aggs:
  "init cls ps acc h = Inr (r, h') \<Longrightarrow> distinct (map fst ps) \<Longrightarrow>
   map_of (param_defs cls) key = Some AggHash \<Longrightarrow> map_of ps key = Some v \<Longrightarrow>
   \<exists>kvs kvs'. items_of v = Some kvs \<and> map_of r key = Some (Hash kvs') \<and>
      map fst kvs' = map fst kvs \<and> (\<forall>x \<in> snd ` set kvs'. \<exists>c. x = AggV c)"
proof (induction ps arbitrary: acc h)
  case Nil
  then show ?case by simp
next
  case (Cons x ps)
  obtain pname pvalue where x: "x = (pname, pvalue)" by (cases x)
  from Cons.prems(2) x have d: "distinct (map fst ps)" and nin: "pname \<notin> fst ` set ps" by auto
  show ?case
  proof (cases "pname = key")
    case True
    with Cons.prems(4) x have v: "pvalue = v" by simp
    from Cons.prems(1) x True Cons.prems(3) v obtain kvs kvs' h1 where
      i: "items_of v = Some kvs" and c: "coerce_aggs kvs h = Inr (kvs', h1)"
      and r: "init cls ps (AList.update key (Hash kvs') acc) h1 = Inr (r, h')"
      by (auto split: option.splits sum.splits)
    from init_absent [OF r] nin True have "map_of r key = Some (Hash kvs')"
      by (simp add: update_conv')
    with i coerce_aggs_keys [OF c] show ?thesis by blast
  next
    case False
    from Cons.prems(1) x obtain w h1 where
      r: "init cls ps (AList.update pname w acc) h1 = Inr (r, h')"
      by (auto split: option.splits ptype.splits sum.splits pval.splits)
    from False Cons.prems(4) x have "map_of ps key = Some v" by simp
    from Cons.IH [OF r d Cons.prems(3) this] show ?thesis .
  qed
qed

lemma distinct_class_init:
  "distinct (map fst ps) \<Longrightarrow> distinct (map fst (class_init cls ps))"
  by (auto simp: class_init_def Filter_init_def distinct_update distinct_delete
        split: option.splits)

lemma map_of_class_init:
  "key \<noteq> ''filter'' \<Longrightarrow> map_of (class_init cls ps) key = map_of ps key"
  by (auto simp: class_init_def Filter_init_def update_conv' delete_conv' split: option.splits)

lemma bucket_aggs_typed: "isinstance_Bucket k \<Longrightarrow> map_of (param_defs k) ''aggs'' = Some AggHash"
  by (simp add: param_defs_def)

lemma meta_untyped: "map_of (param_defs k) ''meta'' = None"
  by (simp add: param_defs_def)

lemma new_agg_result:
  assumes "new_agg cls (Some x) ps h = Inr (a, h')"
  shows "\<exists>r hB. init cls (class_init cls ps) [] h = Inr (r, hB) \<and>
           name (h' ! a) = cls \<and> params (h' ! a) = r \<and> h' = hB @ [h' ! a] \<and>
           ''_expand__to_dot'' \<notin> fst ` set ps \<and> ''self'' \<notin> fst ` set ps"
proof -
  from assms have k: "''_expand__to_dot'' \<notin> fst ` set ps" "''self'' \<notin> fst ` set ps"
    by (auto simp: new_agg.simps split: if_splits)
  with keys_class_init [of cls ps] have "''_expand__to_dot'' \<notin> fst ` set (class_init cls ps)"
    by blast
  then have "AList.delete ''_expand__to_dot'' (class_init cls ps) = class_init cls ps"
    by (simp add: delete_id)
  with assms k show ?thesis
    by (auto simp: new_agg.simps split: sum.splits if_splits)
qed

lemma A_Mapping_node:
  assumes d: "AList.delete ''meta'' (AList.delete ''aggs'' m) = [(k, JObj kv)]"
    and reg: "category_of k \<noteq> None"
    and dk: "distinct (map fst kv)"
    and ok: "A (Mapping m) None [] h = Inr (a, h')"
  shows "name (h' ! a) = k \<and>
     (\<forall>j. map_of m ''meta'' = Some j \<and> truthy j \<longrightarrow>
          map_of (params (h' ! a)) ''meta'' = Some (One (Raw j))) \<and>
     (\<forall>cs. isinstance_Bucket k \<and> map_of m ''aggs'' = Some (JObj cs) \<and> cs \<noteq> [] \<longrightarrow>
          (\<exists>kvs. map_of (params (h' ! a)) ''aggs'' = Some (Hash kvs) \<and>
                 map fst kvs = map fst cs \<and> (\<forall>x \<in> snd ` set kvs. \<exists>c. x = AggV c)))"
proof -
  let ?kv2 = "reattached ''meta'' (map_of m ''meta'') (reattached ''aggs'' (map_of m ''aggs'') kv)"
  let ?ps = "class_init k (kwargs ?kv2)"
  from ok A_Mapping_eq [OF d reg, of h] have "new_agg k (Some False) (kwargs ?kv2) h = Inr (a, h')"
    by simp
  from new_agg_result [OF this] obtain r hB where
    i: "init k ?ps [] h = Inr (r, hB)" and nm: "name (h' ! a) = k" and r: "params (h' ! a) = r"
    by blast
  have d2: "distinct (map fst ?kv2)"
    using dk by (auto simp: reattached_def distinct_update split: option.splits)
  then have dps: "distinct (map fst ?ps)"
    by (intro distinct_class_init) (simp add: keys_kwargs)
  have meta: "map_of r ''meta'' = Some (One (Raw j))"
    if "map_of m ''meta'' = Some j" "truthy j" for j
  proof -
    from that have "map_of ?kv2 ''meta'' = Some j" by (simp add: reattached_def update_conv')
    then have "map_of ?ps ''meta'' = Some (One (Raw j))"
      by (simp add: map_of_class_init map_of_kwargs)
    with init_untyped [OF i meta_untyped dps] show ?thesis by simp
  qed
  have aggs: "\<exists>kvs. map_of r ''aggs'' = Some (Hash kvs) \<and> map fst kvs = map fst cs \<and>
                 (\<forall>x \<in> snd ` set kvs. \<exists>c. x = AggV c)"
    if b: "isinstance_Bucket k" and a: "map_of m ''aggs'' = Some (JObj cs)" and ne: "cs \<noteq> []" for cs
  proof -
    from a ne have "map_of ?kv2 ''aggs'' = Some (JObj cs)"
      by (auto simp: reattached_def update_conv' split: option.splits)
    then have "map_of ?ps ''aggs'' = Some (One (Raw (JObj cs)))"
      by (simp add: map_of_class_init map_of_kwargs)
    from init_typed_aggs [OF i dps bucket_aggs_typed [OF b] this] obtain kvs' where
      "map_of r ''aggs'' = Some (Hash kvs')"
      "map fst kvs' = map fst (map (\<lambda>(k, j). (k, Raw j)) cs)"
      "\<forall>x \<in> snd ` set kvs'. \<exists>c. x = AggV c" by auto
    moreover have "map fst (map (\<lambda>(k, j). (k, Raw j)) cs) = map fst cs" by (induction cs) auto
    ultimately show ?thesis by auto
  qed
  from nm r meta aggs show ?thesis by blast
qed

lemma reattach_not_JObj:
  "reattach key x p = Inr p' \<Longrightarrow> (\<forall>kv. p \<noteq> JObj kv) \<Longrightarrow> p' = p"
  by (cases x; cases p) (auto simp: reattach_def split: if_splits)

lemma get_dsl_class_Inl: "get_dsl_class k = Inl e \<Longrightarrow> e = UnknownDslObject"
  by (cases "category_of k") (simp_all add: get_dsl_class_def)

subsection \<open>Conflicting input forms of the factory\<close>

text \<open>
  Claim C9. Calling \<open>A\<close> with a wire-format mapping and non-empty keyword parameters raises
  the \<open>ValueError\<close> of a mapping with parameters, calling it with an instance and non-empty
  keyword parameters raises the \<open>ValueError\<close> of an instance with parameters (both are the
  specification's AmbiguousInputError), and calling it with an instance and no parameters
  returns that very object, the store unchanged.
\<close>

theorem A_ambiguous_or_passthrough:
  "(ps \<noteq> [] \<longrightarrow> A (Mapping m) None ps h = Inl (ValueError ParamsWithDict)) \<and>
   (ps \<noteq> [] \<longrightarrow> A (Instance a) None ps h = Inl (ValueError ParamsWithAgg)) \<and>
   A (Instance a) None [] h = Inr (a, h)"
  by (simp add: A.simps)

theorem A_ambiguous_or_passthrough_witness:
  "A (Mapping [(''terms'', JObj [])]) None [(''size'', One (Raw (JInt 3)))] []
      = Inl (ValueError ParamsWithDict) \<and>
   A (Instance 0) None [(''size'', One (Raw (JInt 3)))]
       [\<lparr>name = ''terms'', params = [], base = Some 0\<rparr>]
      = Inl (ValueError ParamsWithAgg) \<and>
   A (Instance 0) None [] [\<lparr>name = ''terms'', params = [], base = Some 0\<rparr>]
      = Inr (0, [\<lparr>name = ''terms'', params = [], base = Some 0\<rparr>])"
  using A_ambiguous_or_passthrough
    [of "[(''size'', One (Raw (JInt 3)))]" "[(''terms'', JObj [])]" "[]" 0]
    A_ambiguous_or_passthrough
    [of "[(''size'', One (Raw (JInt 3)))]" "[]" "[\<lparr>name = ''terms'', params = [], base = Some 0\<rparr>]" 0]
  by simp

subsection \<open>Which view a bucket's response is wrapped in\<close>

text \<open>
  Claim C3, as stated: each of the seven kinds terms, multi_terms, rare_terms, histogram,
  date_histogram, auto_date_histogram and variable_width_histogram yields a
  \<open>FieldBucketData\<close> view. This fails: \<open>MultiTerms\<close> has no \<open>result\<close> of its own and inherits
  \<open>AggBase.result\<close>, which yields \<open>BucketData\<close>.
\<close>

theorem result_multi_terms_counterexample:
  "isinstance_Bucket ''multi_terms'' \<and> result ''multi_terms'' \<noteq> FieldBucketData
     \<and> result ''multi_terms'' = BucketData"
  by (simp add: result_def isinstance_Bucket_def bucket_names_def)

text \<open>
  Claim C3, amended: a node of one of the six kinds terms, rare_terms, histogram,
  date_histogram, auto_date_histogram and variable_width_histogram yields a
  \<open>FieldBucketData\<close> view, and a node of any other bucket kind, multi_terms among them,
  yields the generic \<open>BucketData\<close> view.
\<close>

theorem result_of_bucket:
  "isinstance_Bucket k \<Longrightarrow>
     result k =
       (if k \<in> set [''terms'', ''rare_terms'', ''histogram'', ''date_histogram'',
                     ''auto_date_histogram'', ''variable_width_histogram'']
        then FieldBucketData else BucketData)"
  by (auto simp: result_def isinstance_Bucket_def bucket_names_def)

theorem result_of_bucket_witness:
  "isinstance_Bucket ''multi_terms'' \<and> result ''multi_terms'' = BucketData \<and>
   isinstance_Bucket ''terms'' \<and> result ''terms'' = FieldBucketData"
  using result_of_bucket [of "''multi_terms''"] result_of_bucket [of "''terms''"]
  by (simp add: isinstance_Bucket_def bucket_names_def)

subsection \<open>The shape of a serialized node\<close>

text \<open>
  Claim C6, as stated: for every node the children are hoisted to a sibling \<open>aggs\<close> key and
  never nested inside the object under the kind tag. This fails for a node that is not a
  bucket: \<open>A\<close> re-attaches a truthy \<open>aggs\<close> to any kind, only \<open>Bucket.to_dict\<close> hoists \<open>aggs\<close>,
  and \<open>Agg.to_dict\<close> hoists \<open>meta\<close> alone. The \<open>max\<close> node built from
  \<open>{"max": {"field": "y"}, "aggs": {"x": {"min": {"field": "z"}}}}\<close> serializes to
  \<open>{"max": {"field": "y", "aggs": {"x": {"min": {"field": "z"}}}}}\<close>.
\<close>

theorem to_dict_keeps_aggs_of_metric_nested_counterexample:
  "A (Mapping max_with_aggs) None [] [] = Inr (0, max_with_aggs_store) \<and>
   to_dict 2 max_with_aggs_store 0
     = Inr (JObj [(''max'',
                   JObj [(''field'', JStr ''y''),
                         (''aggs'', JObj [(''x'', JObj [(''min'', JObj [(''field'', JStr ''z'')])])])])])"
  by code_simp

text \<open>
  Claim C6, amended. For a node of a registered kind whose parameters serialize, \<open>to_dict\<close>
  returns an object whose keys are the kind tag and at most \<open>meta\<close> and \<open>aggs\<close>, each once.
  The object under the kind tag has no \<open>meta\<close> key; the sibling \<open>meta\<close> is there exactly when
  the parameters have a \<open>meta\<close> entry, and holds its serialized value. For a bucket the
  object under the kind tag has no \<open>aggs\<close> key, and whenever the children map is non-empty
  the sibling \<open>aggs\<close> holds the serialized children. A node that is not a bucket has no
  sibling \<open>aggs\<close>: an \<open>aggs\<close> parameter it was given stays, serialized, inside the object
  under the kind tag. For the \<open>filter\<close> kind the sub-query's wire object is assumed to have
  no field named \<open>meta\<close> or \<open>aggs\<close> (the query subsystem is external and has no query of
  either name).
\<close>

theorem to_dict_hoists_children_and_meta:
  assumes a: "a < length h"
    and reg: "category_of (name (h ! a)) \<noteq> None"
    and inner: "DslBase_to_dict n h (name (h ! a)) (params (h ! a)) = Inr inner"
    and flt: "name (h ! a) = ''filter'' \<longrightarrow>
      (\<forall>j. map_of inner ''filter'' = Some j \<longrightarrow>
         (\<exists>q. j = JObj q \<and> ''meta'' \<notin> fst ` set q \<and> ''aggs'' \<notin> fst ` set q))"
  shows "\<exists>d ko.
      to_dict (Suc n) h a = Inr (JObj d) \<and>
      map_of d (name (h ! a)) = Some (JObj ko) \<and>
      fst ` set d \<subseteq> {name (h ! a), ''meta'', ''aggs''} \<and> distinct (map fst d) \<and>
      map_of ko ''meta'' = None \<and>
      (case map_of (params (h ! a)) ''meta'' of
         None \<Rightarrow> map_of d ''meta'' = None
       | Some v \<Rightarrow> \<exists>m. pval_to_dict n h v = Inr m \<and> map_of d ''meta'' = Some m) \<and>
      (if isinstance_Bucket (name (h ! a))
       then map_of ko ''aggs'' = None \<and>
            (\<forall>kvs. map_of (params (h ! a)) ''aggs'' = Some (Hash kvs) \<and> kvs \<noteq> [] \<longrightarrow>
               (\<exists>cj. hash_to_dict n h kvs = Inr cj \<and> map_of d ''aggs'' = Some (JObj cj)))
       else map_of d ''aggs'' = None \<and>
            (case map_of (params (h ! a)) ''aggs'' of
               None \<Rightarrow> map_of ko ''aggs'' = None
             | Some v \<Rightarrow> \<exists>j. pval_to_dict n h v = Inr j \<and> map_of ko ''aggs'' = Some j))"
proof -
  let ?cls = "name (h ! a)" and ?ps = "params (h ! a)"
  note nr = registered_not_reserved [OF reg]
  from class_to_dict_shape [OF reg flt] obtain ko where
    c: "class_to_dict ?cls [(?cls, JObj inner)]
          = Inr ((?cls, JObj ko) # siblings (isinstance_Bucket ?cls) inner)"
    and ko: "map_of ko ''meta'' = None" "isinstance_Bucket ?cls \<longrightarrow> map_of ko ''aggs'' = None"
      "\<not> isinstance_Bucket ?cls \<longrightarrow> map_of ko ''aggs'' = map_of inner ''aggs''"
    by (auto split: if_splits)
  let ?d = "(?cls, JObj ko) # siblings (isinstance_Bucket ?cls) inner"
  have t: "to_dict (Suc n) h a = Inr (JObj ?d)"
    using a inner c by simp
  have keys: "fst ` set ?d \<subseteq> {?cls, ''meta'', ''aggs''}"
    using map_of_siblings(3) [of "isinstance_Bucket ?cls" inner] by auto
  have dist: "distinct (map fst ?d)"
    using map_of_siblings(3,4) [of "isinstance_Bucket ?cls" inner] nr by auto
  have untyped: "map_of (param_defs ?cls) ''meta'' = None"
    by (simp add: param_defs_def)
  have meta: "case map_of ?ps ''meta'' of
         None \<Rightarrow> map_of ?d ''meta'' = None
       | Some v \<Rightarrow> \<exists>m. pval_to_dict n h v = Inr m \<and> map_of ?d ''meta'' = Some m"
  proof (cases "map_of ?ps ''meta''")
    case None
    from DslBase_to_dict_absent [OF inner None] nr show ?thesis
      by (auto simp: None map_of_siblings)
  next
    case (Some v)
    from DslBase_to_dict_lookup [OF inner Some] untyped nr show ?thesis
      by (auto simp: Some map_of_siblings)
  qed
  have aggs: "if isinstance_Bucket ?cls
       then map_of ko ''aggs'' = None \<and>
            (\<forall>kvs. map_of ?ps ''aggs'' = Some (Hash kvs) \<and> kvs \<noteq> [] \<longrightarrow>
               (\<exists>cj. hash_to_dict n h kvs = Inr cj \<and> map_of ?d ''aggs'' = Some (JObj cj)))
       else map_of ?d ''aggs'' = None \<and>
            (case map_of ?ps ''aggs'' of
               None \<Rightarrow> map_of ko ''aggs'' = None
             | Some v \<Rightarrow> \<exists>j. pval_to_dict n h v = Inr j \<and> map_of ko ''aggs'' = Some j)"
  proof (cases "isinstance_Bucket ?cls")
    case False
    then have ua: "map_of (param_defs ?cls) ''aggs'' = None"
      by (auto simp: param_defs_def isinstance_Bucket_def bucket_names_def)
    have "case map_of ?ps ''aggs'' of
               None \<Rightarrow> map_of ko ''aggs'' = None
             | Some v \<Rightarrow> \<exists>j. pval_to_dict n h v = Inr j \<and> map_of ko ''aggs'' = Some j"
    proof (cases "map_of ?ps ''aggs''")
      case None
      from DslBase_to_dict_absent [OF inner None] ko(3) False show ?thesis
        by (simp add: None)
    next
      case (Some v)
      from DslBase_to_dict_lookup [OF inner Some] ua ko(3) False show ?thesis
        by (auto simp: Some)
    qed
    with False nr show ?thesis by (auto simp: map_of_siblings)
  next
    case True
    have "\<exists>cj. hash_to_dict n h kvs = Inr cj \<and> map_of ?d ''aggs'' = Some (JObj cj)"
      if kv: "map_of ?ps ''aggs'' = Some (Hash kvs)" "kvs \<noteq> []" for kvs
    proof -
      from kv(2) have "\<not> is_empty (Hash kvs)" by (simp add: is_empty_def)
      with DslBase_to_dict_lookup [OF inner kv(1)] obtain j where
        j: "map_of inner ''aggs'' = Some j" "pval_to_dict n h (Hash kvs) = Inr j" by blast
      then show ?thesis using nr True by (auto simp: map_of_siblings split: sum.splits)
    qed
    with True ko show ?thesis by simp
  qed
  show ?thesis
    using t keys dist ko(1) meta aggs nr
    by (intro exI [of _ ?d] exI [of _ ko]) simp
qed

theorem to_dict_hoists_children_and_meta_witness:
  "1 < length terms_store \<and>
   category_of (name (terms_store ! 1)) \<noteq> None \<and>
   DslBase_to_dict 1 terms_store (name (terms_store ! 1)) (params (terms_store ! 1))
     = Inr [(''field'', JStr ''tags''), (''meta'', JObj [(''a'', JInt 1)]),
            (''aggs'', JObj [(''x'', JObj [(''max'', JObj [(''field'', JStr ''y'')])])])] \<and>
   name (terms_store ! 1) \<noteq> ''filter'' \<and>
   to_dict (Suc 1) terms_store 1
     = Inr (JObj [(''terms'', JObj [(''field'', JStr ''tags'')]),
                  (''meta'', JObj [(''a'', JInt 1)]),
                  (''aggs'', JObj [(''x'', JObj [(''max'', JObj [(''field'', JStr ''y'')])])])]) \<and>
   (\<exists>d ko.
      to_dict (Suc 1) terms_store 1 = Inr (JObj d) \<and>
      map_of d (name (terms_store ! 1)) = Some (JObj ko) \<and>
      fst ` set d \<subseteq> {name (terms_store ! 1), ''meta'', ''aggs''} \<and> distinct (map fst d) \<and>
      map_of ko ''meta'' = None \<and>
      (case map_of (params (terms_store ! 1)) ''meta'' of
         None \<Rightarrow> map_of d ''meta'' = None
       | Some v \<Rightarrow> \<exists>m. pval_to_dict 1 terms_store v = Inr m \<and> map_of d ''meta'' = Some m) \<and>
      (if isinstance_Bucket (name (terms_store ! 1))
       then map_of ko ''aggs'' = None \<and>
            (\<forall>kvs. map_of (params (terms_store ! 1)) ''aggs'' = Some (Hash kvs) \<and> kvs \<noteq> [] \<longrightarrow>
               (\<exists>cj. hash_to_dict 1 terms_store kvs = Inr cj \<and> map_of d ''aggs'' = Some (JObj cj)))
       else map_of d ''aggs'' = None \<and>
            (case map_of (params (terms_store ! 1)) ''aggs'' of
               None \<Rightarrow> map_of ko ''aggs'' = None
             | Some v \<Rightarrow> \<exists>j. pval_to_dict 1 terms_store v = Inr j \<and> map_of ko ''aggs'' = Some j)))"
proof -
  have h1: "1 < length terms_store" by (simp add: terms_store_def)
  have h2: "category_of (name (terms_store ! 1)) \<noteq> None" by code_simp
  have h3: "DslBase_to_dict 1 terms_store (name (terms_store ! 1)) (params (terms_store ! 1))
     = Inr [(''field'', JStr ''tags''), (''meta'', JObj [(''a'', JInt 1)]),
            (''aggs'', JObj [(''x'', JObj [(''max'', JObj [(''field'', JStr ''y'')])])])]"
    by code_simp
  have h4: "name (terms_store ! 1) \<noteq> ''filter''" by code_simp
  have h5: "to_dict (Suc 1) terms_store 1
     = Inr (JObj [(''terms'', JObj [(''field'', JStr ''tags'')]),
                  (''meta'', JObj [(''a'', JInt 1)]),
                  (''aggs'', JObj [(''x'', JObj [(''max'', JObj [(''field'', JStr ''y'')])])])])"
    by code_simp
  from h4 have h4': "name (terms_store ! 1) = ''filter'' \<longrightarrow> (\<forall>j. map_of
      [(''field'', JStr ''tags''), (''meta'', JObj [(''a'', JInt 1)]),
       (''aggs'', JObj [(''x'', JObj [(''max'', JObj [(''field'', JStr ''y'')])])])] ''filter'' = Some j \<longrightarrow>
         (\<exists>q. j = JObj q \<and> ''meta'' \<notin> fst ` set q \<and> ''aggs'' \<notin> fst ` set q))"
    by simp
  show ?thesis
    by (intro conjI h1 h2 h3 h4 h5 to_dict_hoists_children_and_meta [OF h1 h2 h3 h4'])
qed

subsection \<open>The filter kind\<close>



subsection \<open>The constructor applied to parameters it has built\<close>

lemma coerce_aggs_AggV:
  "list_all (\<lambda>(k, v). is_AggV v) kvs \<Longrightarrow> coerce_aggs kvs h = Inr (kvs, h)"
proof (induction kvs)
  case Nil
  show ?case by simp
next
  case (Cons x kvs)
  obtain k v where x: "x = (k, v)" by (cases x)
  with Cons.prems obtain a where v: "v = AggV a" by (cases v) auto
  have "A (Instance a) None [] h = Inr (a, h)" by (simp add: A.simps)
  with Cons x v show ?case by simp
qed

lemma coerce_sources_AggV:
  "list_all (list_all (\<lambda>(k, v). is_AggV v)) l \<Longrightarrow> coerce_sources (map Hash l) h = Inr (l, h)"
  by (induction l) (simp_all add: coerce_aggs_AggV)

lemma Q_hash_QueryV:
  "list_all (\<lambda>(k, v). is_QueryV v) kvs \<Longrightarrow> Q_hash kvs = Inr kvs"
proof (induction kvs)
  case Nil
  show ?case by simp
next
  case (Cons x kvs)
  obtain k v where x: "x = (k, v)" by (cases x)
  with Cons.prems obtain q where v: "v = QueryV q" by (cases v) auto
  with Cons x show ?case by simp
qed

lemma init_coerced_value:
  assumes "coerced_param cls key v"
  shows "init cls ((key, v) # rest) acc h = init cls rest (AList.update key v acc) h"
proof (cases "map_of (param_defs cls) key")
  case None
  then show ?thesis by simp
next
  case (Some t)
  with assms have c: "coerced_value t v" by (simp add: coerced_param_def)
  show ?thesis
  proof (cases t)
    case AggHash
    with c obtain kvs where "v = Hash kvs" "list_all (\<lambda>(k, v). is_AggV v) kvs"
      by (cases v) auto
    with Some AggHash show ?thesis by (simp add: coerce_aggs_AggV)
  next
    case AggMultiHash
    with c obtain l where "v = MultiHash l" "list_all (list_all (\<lambda>(k, v). is_AggV v)) l"
      by (cases v) auto
    with Some AggMultiHash show ?thesis by (simp add: coerce_sources_AggV)
  next
    case QueryOne
    with c obtain x where v: "v = One x" and "is_QueryV x" by (cases v) auto
    then obtain q where "x = QueryV q" by (cases x) auto
    with Some QueryOne v show ?thesis by simp
  next
    case QueryHash
    with c obtain kvs where "v = Hash kvs" "list_all (\<lambda>(k, v). is_QueryV v) kvs"
      by (cases v) auto
    with Some QueryHash show ?thesis by (simp add: Q_hash_QueryV)
  qed
qed

lemma update_absent: "key \<notin> fst ` set kv \<Longrightarrow> AList.update key v kv = kv @ [(key, v)]"
  by (induction kv) auto

lemma init_coerced_append:
  assumes "list_all (\<lambda>(key, v). coerced_param cls key v) ps" "distinct (map fst ps)"
    "fst ` set ps \<inter> fst ` set acc = {}"
  shows "init cls ps acc h = Inr (acc @ ps, h)"
  using assms
proof (induction ps arbitrary: acc)
  case Nil
  show ?case by simp
next
  case (Cons x ps)
  obtain key v where x: "x = (key, v)" by (cases x)
  from Cons.prems x have c: "coerced_param cls key v"
    and r: "list_all (\<lambda>(key, v). coerced_param cls key v) ps" and d: "distinct (map fst ps)"
    and k: "key \<notin> fst ` set acc" "key \<notin> fst ` set ps"
    and dis: "fst ` set ps \<inter> fst ` set acc = {}" by auto
  have u: "AList.update key v acc = acc @ [(key, v)]" using k(1) by (rule update_absent)
  have "fst ` set ps \<inter> fst ` set (acc @ [(key, v)]) = {}" using dis k(2) by auto
  from Cons.IH [OF r d this] x u init_coerced_value [OF c] show ?case by simp
qed

lemma init_fixed: "coerced cls ps \<Longrightarrow> init cls ps [] h = Inr (ps, h)"
  using init_coerced_append [of cls ps "[]" h] by (simp add: coerced_def)

lemma coerced_update:
  assumes "coerced cls acc" "coerced_param cls k v"
  shows "coerced cls (AList.update k v acc)"
proof -
  have "list_all (\<lambda>(key, v). coerced_param cls key v) acc \<Longrightarrow>
        list_all (\<lambda>(key, v). coerced_param cls key v) (AList.update k v acc)"
    using assms(2) by (induction acc) auto
  with assms(1) show ?thesis by (simp add: coerced_def distinct_update)
qed

lemma coerce_sources_result:
  "coerce_sources ds h = Inr (l, h') \<Longrightarrow> list_all (list_all (\<lambda>(k, v). is_AggV v)) l"
proof (induction ds arbitrary: h l)
  case Nil
  then show ?case by simp
next
  case (Cons d ds)
  from Cons.prems obtain kvs kvs' h1 rest where
    c: "coerce_aggs kvs h = Inr (kvs', h1)" and s: "coerce_sources ds h1 = Inr (rest, h')"
    and l: "l = kvs' # rest"
    by (auto split: option.splits sum.splits)
  from coerce_aggs_keys [OF c] have "list_all (\<lambda>(k, v). is_AggV v) kvs'"
    by (auto simp: list_all_iff)
  with Cons.IH [OF s] l show ?case by simp
qed

lemma Q_result: "Q v = Inr q \<Longrightarrow> is_QueryV q"
  by (induction v rule: Q.induct) auto

lemma Q_hash_result: "Q_hash kvs = Inr qs \<Longrightarrow> list_all (\<lambda>(k, v). is_QueryV v) qs"
proof (induction kvs arbitrary: qs)
  case Nil
  then show ?case by simp
next
  case (Cons x kvs)
  obtain k v where x: "x = (k, v)" by (cases x)
  with Cons.prems obtain q rest where "Q v = Inr q" "Q_hash kvs = Inr rest" "qs = (k, q) # rest"
    by (auto split: sum.splits)
  with Cons.IH [of rest] Q_result [of v q] show ?case by simp
qed

lemma init_step:
  assumes "init cls ((pname, pvalue) # rest) acc h = Inr (r, h')"
  shows "\<exists>w h1. init cls rest (AList.update pname w acc) h1 = Inr (r, h') \<and>
           coerced_param cls pname w"
proof (cases "map_of (param_defs cls) pname")
  case None
  with assms show ?thesis by (auto simp: coerced_param_def)
next
  case (Some t)
  show ?thesis
  proof (cases t)
    case AggHash
    with assms Some obtain kvs kvs' h1 where
      c: "coerce_aggs kvs h = Inr (kvs', h1)"
      and r: "init cls rest (AList.update pname (Hash kvs') acc) h1 = Inr (r, h')"
      by (auto split: option.splits sum.splits)
    from coerce_aggs_keys [OF c] have "list_all (\<lambda>(k, v). is_AggV v) kvs'"
      by (auto simp: list_all_iff)
    with r Some AggHash show ?thesis by (auto simp: coerced_param_def)
  next
    case AggMultiHash
    with assms Some obtain l h1 where
      c: "coerce_sources (dicts_of pvalue) h = Inr (l, h1)"
      and r: "init cls rest (AList.update pname (MultiHash l) acc) h1 = Inr (r, h')"
      by (auto split: option.splits sum.splits)
    from coerce_sources_result [OF c] r Some AggMultiHash show ?thesis
      by (auto simp: coerced_param_def)
  next
    case QueryOne
    with assms Some obtain v q where
      c: "Q v = Inr q" and r: "init cls rest (AList.update pname (One q) acc) h = Inr (r, h')"
      by (auto split: pval.splits sum.splits)
    from Q_result [OF c] r Some QueryOne show ?thesis by (auto simp: coerced_param_def)
  next
    case QueryHash
    with assms Some obtain kvs qs where
      c: "Q_hash kvs = Inr qs" and r: "init cls rest (AList.update pname (Hash qs) acc) h = Inr (r, h')"
      by (auto split: option.splits sum.splits)
    from Q_hash_result [OF c] r Some QueryHash show ?thesis by (auto simp: coerced_param_def)
  qed
qed

lemma init_coerced:
  "init cls ps acc h = Inr (r, h') \<Longrightarrow> coerced cls acc \<Longrightarrow>
     coerced cls r \<and> fst ` set r \<subseteq> fst ` set acc \<union> fst ` set ps"
proof (induction ps arbitrary: acc h)
  case Nil
  then show ?case by simp
next
  case (Cons x ps)
  obtain pname pvalue where x: "x = (pname, pvalue)" by (cases x)
  from init_step [of cls pname pvalue ps acc h r h'] Cons.prems(1) x obtain w h1 where
    r: "init cls ps (AList.update pname w acc) h1 = Inr (r, h')" and c: "coerced_param cls pname w"
    by auto
  from Cons.IH [OF r coerced_update [OF Cons.prems(2) c]] x show ?case
    by (auto simp: dom_update)
qed

lemma A_Name_coerced:
  assumes "A (Name s) None ps h = Inr (a, h')"
  shows "coerced s (params (h' ! a)) \<and> ''_expand__to_dot'' \<notin> fst ` set (params (h' ! a))"
proof -
  from A_Name_params [OF assms] obtain r hB where
    i: "init s (AList.delete ''_expand__to_dot'' (class_init s ps)) [] h = Inr (r, hB)"
    and r: "params (h' ! a) = r" by blast
  have "coerced s []" by (simp add: coerced_def)
  from init_coerced [OF i this] r
    delete_notin_dom [of "''_expand__to_dot''" "class_init s ps"]
  show ?thesis by auto
qed

lemma getitem_bucket_copy:
  assumes g: "AggBase_getitem self k h = (Inr (AggV c), h')"
    and bc: "isinstance_Bucket (name (h' ! c))"
  shows "self < length h \<and> length h \<le> c \<and> length h' = Suc c \<and>
     child h' self k = Some (AggV c) \<and> base (h' ! c) = Some c \<and>
     (\<forall>a < length h. a \<noteq> self \<longrightarrow> h' ! a = h ! a) \<and>
     (\<exists>c0 < length h. child h self k = Some (AggV c0) \<and> name (h ! c0) = name (h' ! c) \<and>
        ''filter'' \<notin> fst ` set (params (h ! c0)) \<and>
        (\<exists>hA. A (Name (name (h' ! c))) None
                (if c0 = self then setdefault_aggs (params (h ! c0)) else params (h ! c0))
                (h[self := (h ! self)\<lparr>params := setdefault_aggs (params (h ! self))\<rparr>])
              = Inr (c, hA) \<and> hA ! c = h' ! c))"
proof -
  let ?h1 = "h[self := (h ! self)\<lparr>params := setdefault_aggs (params (h ! self))\<rparr>]"
  from getitem_AggV [OF g] obtain c0 where
    self: "self < length h"
    and nm: "\<forall>a < length h. name (h' ! a) = name (h ! a) \<and> base (h' ! a) = base (h ! a)"
    and fr: "\<forall>a < length h. a \<noteq> self \<longrightarrow> h' ! a = h ! a"
    and ch: "child h' self k = Some (AggV c)"
    and c0: "c0 < length h" and ch0: "child h self k = Some (AggV c0)"
    and br: "if isinstance_Bucket (name (h ! c0))
             then length h \<le> c \<and> length h' = Suc c \<and> name (h' ! c) = name (h ! c0) \<and>
                  ''filter'' \<notin> fst ` set (params (h ! c0)) \<and>
                  (\<exists>hA. A (Name (name (h ! c0))) None
                          (if c0 = self then setdefault_aggs (params (h ! c0)) else params (h ! c0))
                          ?h1 = Inr (c, hA) \<and> hA ! c = h' ! c)
             else c = c0"
    by blast
  have b0: "isinstance_Bucket (name (h ! c0))"
  proof (rule ccontr)
    assume n: "\<not> isinstance_Bucket (name (h ! c0))"
    with br have "c = c0" by simp
    with nm c0 bc n show False by auto
  qed
  with br obtain hA where
    f: "length h \<le> c" "length h' = Suc c" and n: "name (h' ! c) = name (h ! c0)"
    and nf: "''filter'' \<notin> fst ` set (params (h ! c0))"
    and A: "A (Name (name (h ! c0))) None
              (if c0 = self then setdefault_aggs (params (h ! c0)) else params (h ! c0)) ?h1
            = Inr (c, hA)"
    and hA: "hA ! c = h' ! c" by auto
  from A_Name_new [OF A] b0 hA have "base (h' ! c) = Some c" by simp
  with self f n nf A hA fr ch c0 ch0 show ?thesis by (intro conjI) (auto intro!: exI [of _ c0])
qed

subsection \<open>Reading a child through the container\<close>

text \<open>
  Claim C10. Reading a bucket child through the container is to return a live handle:
  \<open>AggBase.__getitem__\<close> builds the copy, stores it ("be sure to store the copy so any
  modifications to it will affect us") and returns it. For a child of the \<open>filter\<close> kind
  that holds a sub-query the read does not return. The copy is built by
  \<open>A(agg.name, filter=None, **agg._params)\<close>, and the parameters of such a child have the key
  \<open>filter\<close> themselves: the call has two values for the keyword \<open>filter\<close> and raises
  \<open>TypeError\<close>. In the store that \<open>bucket 0 ''f'' ''filter''\<close> builds from a lone \<open>terms\<close>
  bucket and the query \<open>{"term": {"f": 42}}\<close>, the container holds the \<open>filter\<close> bucket
  under \<open>f\<close>, and reading \<open>f\<close> raises and stores nothing.
\<close>

theorem getitem_filter_child_raises:
  "bucket 0 ''f'' ''filter'' (Some (QueryV [(''term'', JObj [(''f'', JInt 42)])])) [] root_store
     = Inr (1, filter_child) \<and>
   child filter_child 0 ''f'' = Some (AggV 1) \<and>
   isinstance_Bucket (name (filter_child ! 1)) \<and>
   AggBase_getitem 0 ''f'' filter_child = (Inl TypeError, filter_child)"
  by code_simp

text \<open>
  Where the read of a bucket child returns, the handle is live: the node returned is a new
  object, it is the child the container holds under the name afterwards, and after any
  parameter of it is assigned the container still holds that node under the name, the node
  has the assigned value, and a serialization of the container (a bucket) has, under \<open>aggs\<close>
  and the child's name, the serialization of the node as mutated.
\<close>

lemma getitem_handle_is_live:
  assumes g: "AggBase_getitem self k h = (Inr (AggV c), h')"
    and bc: "isinstance_Bucket (name (h' ! c))"
  shows "length h \<le> c \<and> c < length h' \<and> child h' self k = Some (AggV c) \<and>
     (\<forall>p v. child (set_param c p v h') self k = Some (AggV c) \<and>
            map_of (params (set_param c p v h' ! c)) p = Some v \<and>
            (\<forall>n d. isinstance_Bucket (name (h ! self)) \<and>
                   to_dict (Suc n) (set_param c p v h') self = Inr (JObj d) \<longrightarrow>
               (\<exists>cj j. map_of d ''aggs'' = Some (JObj cj) \<and> map_of cj k = Some j \<and>
                       to_dict n (set_param c p v h') c = Inr j)))"
proof -
  from getitem_bucket_copy [OF g bc] have
    self: "self < length h" and fresh: "length h \<le> c" and l: "length h' = Suc c"
    and ch: "child h' self k = Some (AggV c)" by auto
  from getitem_AggV [OF g] have
    nm: "\<forall>a < length h. name (h' ! a) = name (h ! a) \<and> base (h' ! a) = base (h ! a)" by blast
  have cl: "c < length h'" using l by simp
  have cs: "c \<noteq> self" using fresh self by simp
  have live: "child (set_param c p v h') self k = Some (AggV c) \<and>
            map_of (params (set_param c p v h' ! c)) p = Some v \<and>
            (\<forall>n d. isinstance_Bucket (name (h ! self)) \<and>
                   to_dict (Suc n) (set_param c p v h') self = Inr (JObj d) \<longrightarrow>
               (\<exists>cj j. map_of d ''aggs'' = Some (JObj cj) \<and> map_of cj k = Some j \<and>
                       to_dict n (set_param c p v h') c = Inr j))" for p v
  proof -
    let ?h = "set_param c p v h'"
    have same: "?h ! self = h' ! self" using cs by (simp add: set_param_def)
    have ch': "child ?h self k = Some (AggV c)" using ch same by (simp add: child_def)
    have pv: "map_of (params (?h ! c)) p = Some v"
      using cl by (simp add: set_param_def update_conv')
    have sl: "self < length ?h" using self fresh cl by (simp add: set_param_def)
    have "\<exists>cj j. map_of d ''aggs'' = Some (JObj cj) \<and> map_of cj k = Some j \<and>
                       to_dict n ?h c = Inr j"
      if "isinstance_Bucket (name (h ! self))" "to_dict (Suc n) ?h self = Inr (JObj d)" for n d
    proof -
      from that(1) nm self same have "isinstance_Bucket (name (?h ! self))" by simp
      from to_dict_child_entry [OF sl this ch' that(2)] show ?thesis .
    qed
    with ch' pv show ?thesis by blast
  qed
  from fresh cl ch live show ?thesis by blast
qed

subsection \<open>Reading a child twice\<close>

text \<open>
  Claim C1, as stated: after \<open>get(k)\<close>, a mutation of the returned node and a second
  \<open>get(k)\<close>, the second call yields the child as it was before the mutation. This fails:
  the first call stored the node it returned, so the second call copies the mutated node.
  In the store \<open>two_level\<close> the first read returns node 2 with the parameter \<open>field\<close> only;
  after \<open>size = 5\<close> is assigned to it, the second read returns node 3 with \<open>size = 5\<close>.
\<close>

theorem getitem_second_read_sees_mutation_counterexample:
  "AggBase_getitem 1 ''k'' two_level = (Inr (AggV 2), two_level_read) \<and>
   params (two_level_read ! 2) = [(''field'', One (Raw (JStr ''tags'')))] \<and>
   AggBase_getitem 1 ''k'' (set_param 2 ''size'' (One (Raw (JInt 5))) two_level_read)
     = (Inr (AggV 3), two_level_reread) \<and>
   params (two_level_reread ! 3)
     = [(''field'', One (Raw (JStr ''tags''))), (''size'', One (Raw (JInt 5)))] \<and>
   params (two_level_reread ! 3) \<noteq> params (two_level_read ! 2)"
  by code_simp

text \<open>
  Claim C1, amended: when \<open>get(k)\<close> returns a bucket child, a parameter of the returned node
  is assigned and \<open>get(k)\<close> returns again, the second call returns a new node, distinct from
  the first, of the same kind and its own anchor, which the container now holds under \<open>k\<close>;
  the first node is still as it was mutated. The second node is a shallow copy of the first
  as mutated: when the assigned value is one the constructor stores as given (a parameter
  outside the class's schema, or a value of the schema's form; the name not being the
  constructor's own keyword \<open>_expand__to_dot\<close>), the parameters of the second node are those
  of the first node after the assignment, the children among them by reference, and the
  second node is the only object the second call adds to the store.
\<close>

theorem getitem_twice_second_is_new_copy:
  assumes g1: "AggBase_getitem self k h = (Inr (AggV c1), h1)"
    and b: "isinstance_Bucket (name (h1 ! c1))"
    and g2: "AggBase_getitem self k (set_param c1 p v h1) = (Inr (AggV c2), h2)"
  shows "c2 \<noteq> c1 \<and> length h1 \<le> c2 \<and> length h2 = Suc c2 \<and>
     name (h2 ! c2) = name (h1 ! c1) \<and> base (h2 ! c2) = Some c2 \<and>
     child h2 self k = Some (AggV c2) \<and>
     h2 ! c1 = (h1 ! c1)\<lparr>params := AList.update p v (params (h1 ! c1))\<rparr> \<and>
     (coerced_param (name (h1 ! c1)) p v \<and> p \<noteq> ''_expand__to_dot'' \<longrightarrow>
        params (h2 ! c2) = AList.update p v (params (h1 ! c1)) \<and> c2 = length h1)"
proof -
  let ?hm = "set_param c1 p v h1"
  let ?nm = "name (h1 ! c1)"
  let ?ps = "AList.update p v (params (h1 ! c1))"
  from getitem_bucket_copy [OF g1 b] obtain ps0 hs hA1 where
    self: "self < length h" and f1: "length h \<le> c1" and l1: "length h1 = Suc c1"
    and A1: "A (Name ?nm) None ps0 hs = Inr (c1, hA1)" and hA1: "hA1 ! c1 = h1 ! c1"
    by blast
  from A_Name_coerced [OF A1] hA1 have co: "coerced ?nm (params (h1 ! c1))"
    and nx: "''_expand__to_dot'' \<notin> fst ` set (params (h1 ! c1))" by simp_all
  have cs: "c1 \<noteq> self" using self f1 by simp
  have lm: "length ?hm = length h1" by (simp add: set_param_def)
  have c1m: "?hm ! c1 = (h1 ! c1)\<lparr>params := ?ps\<rparr>" using l1 by (simp add: set_param_def)
  have bm: "isinstance_Bucket (name (?hm ! c1))" using b c1m by simp
  let ?hm1 = "?hm[self := (?hm ! self)\<lparr>params := setdefault_aggs (params (?hm ! self))\<rparr>]"
  have b2: "isinstance_Bucket (name (h2 ! c2))"
  proof -
    from getitem_AggV [OF g2] obtain c0 where
      "child ?hm self k = Some (AggV c0)" "c0 < length ?hm"
      "\<forall>a < length ?hm. name (h2 ! a) = name (?hm ! a) \<and> base (h2 ! a) = base (?hm ! a)"
      "if isinstance_Bucket (name (?hm ! c0)) then name (h2 ! c2) = name (?hm ! c0) else c2 = c0"
      by (auto split: if_splits)
    moreover from getitem_bucket_copy [OF g1 b] have "child h1 self k = Some (AggV c1)" by blast
    then have "child ?hm self k = Some (AggV c1)" using cs by (simp add: child_def set_param_def)
    ultimately show ?thesis using bm by (auto split: if_splits)
  qed
  from getitem_bucket_copy [OF g2 b2] obtain c0 hA where
    f2: "length ?hm \<le> c2" and l2: "length h2 = Suc c2" and ch2: "child h2 self k = Some (AggV c2)"
    and base2: "base (h2 ! c2) = Some c2"
    and fr: "\<forall>a < length ?hm. a \<noteq> self \<longrightarrow> h2 ! a = ?hm ! a"
    and c0: "child ?hm self k = Some (AggV c0)" and n0: "name (?hm ! c0) = name (h2 ! c2)"
    and nf: "''filter'' \<notin> fst ` set (params (?hm ! c0))"
    and A: "A (Name (name (h2 ! c2))) None
              (if c0 = self then setdefault_aggs (params (?hm ! c0)) else params (?hm ! c0)) ?hm1
            = Inr (c2, hA)"
    and hA: "hA ! c2 = h2 ! c2" by blast
  from getitem_bucket_copy [OF g1 b] have "child h1 self k = Some (AggV c1)" by blast
  then have "child ?hm self k = Some (AggV c1)" using cs by (simp add: child_def set_param_def)
  with c0 have c01: "c0 = c1" by simp
  have n2: "name (h2 ! c2) = ?nm" using n0 c01 c1m by simp
  have A': "A (Name ?nm) None ?ps ?hm1 = Inr (c2, hA)" using A c01 cs c1m n2 by simp
  have nf': "''filter'' \<notin> fst ` set ?ps" using nf c01 c1m by simp
  have ne: "c2 \<noteq> c1" using f2 lm l1 by simp
  have old: "h2 ! c1 = (h1 ! c1)\<lparr>params := ?ps\<rparr>" using fr lm l1 cs c1m by simp
  have copy: "params (h2 ! c2) = ?ps \<and> c2 = length h1"
    if cp: "coerced_param ?nm p v" and px: "p \<noteq> ''_expand__to_dot''"
  proof -
    from A_Name_params [OF A'] obtain r hB where
      i: "init ?nm (AList.delete ''_expand__to_dot'' (class_init ?nm ?ps)) [] ?hm1 = Inr (r, hB)"
      and r: "params (hA ! c2) = r" and hAB: "hA = hB @ [hA ! c2]" by blast
    from nf' have "map_of ?ps ''filter'' = None" by (simp add: map_of_eq_None_iff)
    then have ci: "class_init ?nm ?ps = ?ps" by (simp add: class_init_def Filter_init_def)
    from nx px have "''_expand__to_dot'' \<notin> fst ` set ?ps" by (simp add: dom_update)
    then have de: "AList.delete ''_expand__to_dot'' ?ps = ?ps" by (simp add: delete_id)
    from init_fixed [OF coerced_update [OF co cp], of ?hm1] i ci de
    have "r = ?ps" "hB = ?hm1" by simp_all
    with r hA hAB A_Name_new [OF A'] lm self l1 show ?thesis
      by (metis length_append_singleton length_list_update old.nat.inject)
  qed
  from ne f2 lm l2 n2 base2 ch2 old copy show ?thesis by auto
qed

theorem getitem_twice_second_is_new_copy_witness:
  "AggBase_getitem 1 ''k'' two_level = (Inr (AggV 2), two_level_read) \<and>
   isinstance_Bucket (name (two_level_read ! 2)) \<and>
   AggBase_getitem 1 ''k'' (set_param 2 ''size'' (One (Raw (JInt 5))) two_level_read)
     = (Inr (AggV 3), two_level_reread) \<and>
   coerced_param (name (two_level_read ! 2)) ''size'' (One (Raw (JInt 5))) \<and>
   ''size'' \<noteq> ''_expand__to_dot'' \<and>
   (3::nat) \<noteq> 2 \<and> length two_level_read \<le> 3 \<and> length two_level_reread = Suc 3 \<and>
   name (two_level_reread ! 3) = name (two_level_read ! 2) \<and>
   base (two_level_reread ! 3) = Some 3 \<and>
   child two_level_reread 1 ''k'' = Some (AggV 3) \<and>
   two_level_reread ! 2
     = (two_level_read ! 2)
         \<lparr>params := AList.update ''size'' (One (Raw (JInt 5))) (params (two_level_read ! 2))\<rparr> \<and>
   params (two_level_reread ! 3)
     = AList.update ''size'' (One (Raw (JInt 5))) (params (two_level_read ! 2)) \<and>
   3 = length two_level_read"
proof -
  have g1: "AggBase_getitem 1 ''k'' two_level = (Inr (AggV 2), two_level_read)" by code_simp
  have b: "isinstance_Bucket (name (two_level_read ! 2))" by code_simp
  have g2: "AggBase_getitem 1 ''k'' (set_param 2 ''size'' (One (Raw (JInt 5))) two_level_read)
     = (Inr (AggV 3), two_level_reread)" by code_simp
  have u: "coerced_param (name (two_level_read ! 2)) ''size'' (One (Raw (JInt 5)))" by code_simp
  have x: "''size'' \<noteq> ''_expand__to_dot''" by simp
  from getitem_twice_second_is_new_copy [OF g1 b g2] u x g1 b g2 show ?thesis by blast
qed

subsection \<open>What the chaining methods return\<close>

text \<open>
  Claim C4, as stated: in a chain of container operations starting from a bucket,
  \<open>addMetric\<close> and \<open>addPipeline\<close> return the root anchor, the same object however many
  \<open>addBucket\<close> calls were chained in between. This fails: \<open>_agg\<close> returns \<open>self._base\<close> of the
  node it is called on, and \<open>Bucket.__init__\<close> sets \<open>_base\<close> of every bucket to the bucket
  itself. In the chain \<open>root.bucket("a", "date_histogram").metric("m", "max")\<close> from the
  bucket at address 0, whose anchor is 0, \<open>bucket\<close> returns the new node 1 and \<open>metric\<close>,
  called on node 1, returns 1 and not 0.
\<close>

theorem metric_after_bucket_returns_inner_counterexample:
  "base (root_store ! 0) = Some 0 \<and>
   bucket 0 ''a'' ''date_histogram'' None [] root_store = Inr (1, chained_bucket) \<and>
   metric 1 ''m'' ''max'' None [] chained_bucket = Inr (1, chained_metric) \<and>
   metric 1 ''m'' ''max'' None [] chained_bucket \<noteq> Inr (0, chained_metric)"
  by code_simp

text \<open>
  Claim C4, amended: \<open>addBucket\<close> returns the newly created child node, a new object at each
  call, stored under the given name, and when the kind is a bucket kind the new node's
  anchor is the new node itself. \<open>addMetric\<close> and \<open>addPipeline\<close> return the anchor of the node
  they are called on (for a bucket built by the factory, that node itself; so after chained
  \<open>addBucket\<close> calls, the most recently added bucket and not the bucket the chain started
  from). None of the three changes the anchor of a node that existed before the call.
\<close>

theorem chaining_returns:
  "(bucket self nm kind args ps h = Inr (r, h') \<longrightarrow>
      length h \<le> r \<and> r < length h' \<and> name (h' ! r) = kind \<and>
      child h' self nm = Some (AggV r) \<and>
      (isinstance_Bucket kind \<longrightarrow> base (h' ! r) = Some r) \<and>
      (\<forall>a < length h. base (h' ! a) = base (h ! a))) \<and>
   (metric self nm kind args ps h = Inr (r, h') \<longrightarrow>
      base (h ! self) = Some r \<and> (\<forall>a < length h. base (h' ! a) = base (h ! a))) \<and>
   (pipeline self nm kind args ps h = Inr (r, h') \<longrightarrow>
      base (h ! self) = Some r \<and> (\<forall>a < length h. base (h' ! a) = base (h ! a)))"
  using AggBase_agg_result [of self True nm kind args ps h r h']
    AggBase_agg_result [of self False nm kind args ps h r h']
  by (simp add: bucket_def metric_def pipeline_def)

theorem chaining_returns_witness:
  "bucket 0 ''a'' ''date_histogram'' None [] root_store = Inr (1, chained_bucket) \<and>
   metric 1 ''m'' ''max'' None [] chained_bucket = Inr (1, chained_metric) \<and>
   pipeline 1 ''d'' ''derivative'' None [] chained_bucket = Inr (1, chained_pipeline) \<and>
   isinstance_Bucket ''date_histogram'' \<and>
   length root_store \<le> 1 \<and> 1 < length chained_bucket \<and>
   name (chained_bucket ! 1) = ''date_histogram'' \<and>
   child chained_bucket 0 ''a'' = Some (AggV 1) \<and>
   base (chained_bucket ! 1) = Some 1 \<and>
   base (chained_bucket ! 0) = base (root_store ! 0) \<and>
   base (chained_metric ! 0) = base (chained_bucket ! 0) \<and>
   base (chained_pipeline ! 1) = base (chained_bucket ! 1)"
proof -
  have b: "bucket 0 ''a'' ''date_histogram'' None [] root_store = Inr (1, chained_bucket)"
    by code_simp
  have m: "metric 1 ''m'' ''max'' None [] chained_bucket = Inr (1, chained_metric)"
    by code_simp
  have p: "pipeline 1 ''d'' ''derivative'' None [] chained_bucket = Inr (1, chained_pipeline)"
    by code_simp
  have k: "isinstance_Bucket ''date_histogram''" by code_simp
  have l0: "0 < length root_store" by (simp add: root_store_def)
  have l1: "0 < length chained_bucket" "1 < length chained_bucket"
    by (simp_all add: chained_bucket_def)
  from chaining_returns [of 0 "''a''" "''date_histogram''" None "[]" root_store 1 chained_bucket]
    chaining_returns [of 1 "''m''" "''max''" None "[]" chained_bucket 1 chained_metric]
    chaining_returns [of 1 "''d''" "''derivative''" None "[]" chained_bucket 1 chained_pipeline]
    b m p k l0 l1
  show ?thesis by auto
qed

subsection \<open>The reserved keys of a wire-format mapping\<close>

text \<open>
  Claim C7, as stated: the reserved keys \<open>aggs\<close> and \<open>meta\<close>, if present, are extracted and
  re-attached as ordinary constructor parameters. This fails for a key whose value is
  falsy: \<open>if meta:\<close> (and \<open>if aggs:\<close>) guards the re-attachment. Building from
  \<open>{"terms": {}, "meta": {}}\<close> yields a node without a \<open>meta\<close> parameter.
\<close>

theorem A_drops_empty_meta_counterexample:
  "map_of [(''terms'', JObj []), (''meta'', JObj [])] ''meta'' = Some (JObj []) \<and>
   A (Mapping [(''terms'', JObj []), (''meta'', JObj [])]) None [] []
     = Inr (0, [\<lparr>name = ''terms'', params = [], base = Some 0\<rparr>]) \<and>
   map_of (params ([\<lparr>name = ''terms'', params = [], base = Some 0\<rparr>] ! 0)) ''meta'' = None"
  by code_simp

text \<open>
  Claim C7, amended: given a wire-format mapping with one key besides \<open>aggs\<close> and \<open>meta\<close>,
  naming a registered kind and holding a mapping, \<open>A\<close> calls the class of that kind (beside
  its own keyword \<open>_expand__to_dot=False\<close>) with the entries of that mapping as keyword
  parameters, to which \<open>aggs\<close> and then \<open>meta\<close> are added when they are present with a truthy
  value (a falsy one is dropped). When the build
  succeeds (the parameter names being distinct), the node has that kind, its \<open>meta\<close>
  parameter is the truthy \<open>meta\<close> of the mapping, and for a bucket a non-empty \<open>aggs\<close> mapping
  becomes the children map: one node per entry, under the same names in the same order. In
  particular, building from \<open>{"terms": {"field": "tags"}, "aggs": {"x": {"max": {"field":
  "y"}}}}\<close> yields a node of kind \<open>terms\<close> with the parameter \<open>field = "tags"\<close> and exactly one
  child, named \<open>x\<close>, of kind \<open>max\<close>.
\<close>

theorem A_reattaches_truthy_reserved_keys:
  assumes "AList.delete ''meta'' (AList.delete ''aggs'' m) = [(k, JObj kv)]"
    and "category_of k \<noteq> None"
  shows "A (Mapping m) None [] h =
           new_agg k (Some False)
             (kwargs (reattached ''meta'' (map_of m ''meta'')
                       (reattached ''aggs'' (map_of m ''aggs'') kv))) h \<and>
     (\<forall>a h'. distinct (map fst kv) \<and> A (Mapping m) None [] h = Inr (a, h') \<longrightarrow>
        name (h' ! a) = k \<and>
        (\<forall>j. map_of m ''meta'' = Some j \<and> truthy j \<longrightarrow>
             map_of (params (h' ! a)) ''meta'' = Some (One (Raw j))) \<and>
        (\<forall>cs. isinstance_Bucket k \<and> map_of m ''aggs'' = Some (JObj cs) \<and> cs \<noteq> [] \<longrightarrow>
             (\<exists>kvs. map_of (params (h' ! a)) ''aggs'' = Some (Hash kvs) \<and>
                    map fst kvs = map fst cs \<and> (\<forall>x \<in> snd ` set kvs. \<exists>c. x = AggV c)))) \<and>
     A (Mapping spec_example) None [] [] = Inr (1, spec_example_store)"
proof -
  have ex: "A (Mapping spec_example) None [] [] = Inr (1, spec_example_store)" by code_simp
  show ?thesis
    using A_Mapping_eq [OF assms, of h] A_Mapping_node [OF assms] ex by blast
qed

theorem A_reattaches_truthy_reserved_keys_witness:
  "AList.delete ''meta'' (AList.delete ''aggs'' spec_example)
     = [(''terms'', JObj [(''field'', JStr ''tags'')])] \<and>
   category_of ''terms'' \<noteq> None \<and>
   distinct (map fst [(''field'', JStr ''tags'')]) \<and>
   isinstance_Bucket ''terms'' \<and>
   map_of spec_example ''aggs'' = Some (JObj [(''x'', JObj [(''max'', JObj [(''field'', JStr ''y'')])])]) \<and>
   A (Mapping spec_example) None [] [] = Inr (1, spec_example_store) \<and>
   name (spec_example_store ! 1) = ''terms'' \<and>
   AList.delete ''aggs'' (params (spec_example_store ! 1)) = [(''field'', One (Raw (JStr ''tags'')))] \<and>
   (\<exists>kvs. map_of (params (spec_example_store ! 1)) ''aggs'' = Some (Hash kvs) \<and>
          map fst kvs = map fst [(''x'', JObj [(''max'', JObj [(''field'', JStr ''y'')])])] \<and>
          (\<forall>x \<in> snd ` set kvs. \<exists>c. x = AggV c)) \<and>
   child spec_example_store 1 ''x'' = Some (AggV 0) \<and> name (spec_example_store ! 0) = ''max''"
proof -
  have d: "AList.delete ''meta'' (AList.delete ''aggs'' spec_example)
     = [(''terms'', JObj [(''field'', JStr ''tags'')])]" by code_simp
  have reg: "category_of ''terms'' \<noteq> None" by code_simp
  have dk: "distinct (map fst [(''field'', JStr ''tags'')])" by simp
  have b: "isinstance_Bucket ''terms''" by code_simp
  have a: "map_of spec_example ''aggs''
     = Some (JObj [(''x'', JObj [(''max'', JObj [(''field'', JStr ''y'')])])])" by code_simp
  have ok: "A (Mapping spec_example) None [] [] = Inr (1, spec_example_store)" by code_simp
  have c1: "AList.delete ''aggs'' (params (spec_example_store ! 1))
     = [(''field'', One (Raw (JStr ''tags'')))]" by code_simp
  have c2: "child spec_example_store 1 ''x'' = Some (AggV 0)" by code_simp
  have c3: "name (spec_example_store ! 0) = ''max''" by code_simp
  from A_reattaches_truthy_reserved_keys [OF d reg, of "[]"] dk b a ok
  have "name (spec_example_store ! 1) = ''terms'' \<and>
     (\<exists>kvs. map_of (params (spec_example_store ! 1)) ''aggs'' = Some (Hash kvs) \<and>
          map fst kvs = map fst [(''x'', JObj [(''max'', JObj [(''field'', JStr ''y'')])])] \<and>
          (\<forall>x \<in> snd ` set kvs. \<exists>c. x = AggV c))"
    by blast
  with d reg dk b a ok c1 c2 c3 show ?thesis by blast
qed

subsection \<open>The shape check of a wire-format mapping\<close>

text \<open>
  Claim C8, as stated: the build fails with InvalidShapeError if and only if the mapping,
  without \<open>aggs\<close> and \<open>meta\<close>, has zero or more than one key, and succeeds with exactly one
  key of a registered kind. This fails: the children under \<open>aggs\<close> are built by the same
  factory, and the error of a child is the error of the build. The mapping
  \<open>{"terms": {}, "aggs": {"x": {}}}\<close> has exactly one key besides \<open>aggs\<close>, of a registered
  kind, and the build fails with InvalidShapeError.
\<close>

theorem A_shape_error_counterexample:
  "length (AList.delete ''meta'' (AList.delete ''aggs''
      [(''terms'', JObj []), (''aggs'', JObj [(''x'', JObj [])])])) = 1 \<and>
   category_of ''terms'' \<noteq> None \<and>
   A (Mapping [(''terms'', JObj []), (''aggs'', JObj [(''x'', JObj [])])]) None [] []
     = Inl (ValueError NotOneAggregation)"
  by code_simp

end
